theory Spec2Isabelle
  imports Complex_Main "HOL-Library.Word" "HOL-Library.Multiset" "HOL-Library.Product_Lexorder"
    "HOL-Library.List_Lexorder" "HOL-Library.Char_ord" "HOL-Library.Option_ord"
    "HOL-Library.AList"
begin

unbundle bit_operations_syntax

chapter \<open>The CSV to JSON converter with AES encryption (convert_data.py)\<close>

text \<open>
  The script reads two tables with pandas, reshapes them (\<open>convert_annotated\<close>,
  \<open>convert_threads\<close>), cross-checks the result (\<open>validate_data\<close>) and writes three
  files, one of them encrypted (\<open>encrypt_data\<close>). Each function of the script is
  embedded below under its own name. What the script takes from pandas, json, base64 and
  pycryptodome is written out where its behaviour is elementary (sorting, grouping,
  missing-value tests, PKCS7 padding, CBC chaining, base64, UTF-8) and is a parameter of
  the model where it is not (the JSON decoder, PBKDF2, the AES block function).
\<close>

section \<open>Thread posts\<close>

text \<open>
  One row of the thread-post table, with the eight columns that \<open>convert_threads\<close>
  reads. A cell is \<open>None\<close> when pandas holds a missing value (NaN) there. The numeric
  columns hold finite numbers; a column that contains a missing value is a float column
  in pandas, so numbers are rationals and \<open>int(...)\<close> truncates them. Text columns hold
  strings, compared as Python compares them (lexicographically by character).
\<close>

record thread_row =
  thread_id :: "rat option"
  post_id :: "rat option"
  author_role :: "string option"
  timestamp :: "string option"
  content :: "string option"
  sentiment :: "string option"
  has_vaccine_keyword :: "bool option"
  replies_to_post_number :: "rat option"

text \<open>The dictionary built for one post; every key is always present.\<close>

record post =
  p_post_id :: "int option"
  p_author_role :: "string option"
  p_timestamp :: "string option"
  p_content :: string
  p_sentiment :: string
  p_has_vaccine_keyword :: bool
  p_replies_to_post_number :: "int option"

text \<open>Python's \<open>int(x)\<close> on a finite number truncates toward zero.\<close>

definition py_int :: "rat \<Rightarrow> int" where
  "py_int q = (if 0 \<le> q then \<lfloor>q\<rfloor> else \<lceil>q\<rceil>)"

text \<open>Python's \<open>str(i)\<close> on an integer: the decimal digits, with a minus sign if negative.\<close>

definition digit_char :: "nat \<Rightarrow> char" where
  "digit_char d = ''0123456789'' ! d"

fun digits :: "nat \<Rightarrow> string" where
  "digits n = (if n < 10 then [digit_char n] else digits (n div 10) @ [digit_char (n mod 10)])"

declare digits.simps [simp del]

definition str_int :: "int \<Rightarrow> string" where
  "str_int i = (if i < 0 then CHR ''-'' # digits (nat (- i)) else digits (nat i))"

text \<open>
  \<open>df.sort_values(['thread_id', 'timestamp'])\<close>: pandas sorts on several columns with a
  stable lexicographic sort, ascending, missing values last in each column. The key of a
  cell is the pair (is it missing, its value), so that every value comes before the
  missing marker; \<open>sort_key\<close> is the stable insertion sort of the list library.
\<close>

definition na_last :: "'a option \<Rightarrow> bool \<times> 'a option" where
  "na_last x = (x = None, x)"

definition sort_by :: "thread_row \<Rightarrow> (bool \<times> rat option) \<times> (bool \<times> string option)" where
  "sort_by r = (na_last (thread_id r), na_last (timestamp r))"

definition sort_values :: "thread_row list \<Rightarrow> thread_row list" where
  "sort_values df = sort_key sort_by df"

text \<open>
  \<open>df.groupby('thread_id')\<close> with the default options: the groups come in ascending order
  of the key, each group holds the rows of its key in the order of the frame, and rows
  whose key is missing belong to no group.
\<close>

definition group_keys :: "thread_row list \<Rightarrow> rat list" where
  "group_keys df = sort (remdups (map the (filter (\<lambda>t. t \<noteq> None) (map thread_id df))))"

definition groupby_thread_id :: "thread_row list \<Rightarrow> (rat \<times> thread_row list) list" where
  "groupby_thread_id df = map (\<lambda>k. (k, filter (\<lambda>r. thread_id r = Some k) df)) (group_keys df)"

definition make_post :: "thread_row \<Rightarrow> post" where
  "make_post row =
     \<lparr> p_post_id = (case post_id row of Some v \<Rightarrow> Some (py_int v) | None \<Rightarrow> None),
       p_author_role = (case author_role row of Some v \<Rightarrow> Some v | None \<Rightarrow> None),
       p_timestamp = (case timestamp row of Some v \<Rightarrow> Some v | None \<Rightarrow> None),
       p_content = (case content row of Some v \<Rightarrow> v | None \<Rightarrow> ''''),
       p_sentiment = (case sentiment row of Some v \<Rightarrow> v | None \<Rightarrow> ''neutral''),
       p_has_vaccine_keyword = (case has_vaccine_keyword row of Some v \<Rightarrow> v | None \<Rightarrow> False),
       p_replies_to_post_number =
         (case replies_to_post_number row of Some v \<Rightarrow> Some (py_int v) | None \<Rightarrow> None) \<rparr>"

text \<open>
  The result dictionary keeps insertion order; assigning to a key that is already there
  replaces its value in place, which is what \<open>AList.update\<close> does.
\<close>

type_synonym thread_map = "(string \<times> post list) list"

definition thread_key :: "rat \<Rightarrow> string" where
  "thread_key t = str_int (py_int t)"

definition add_thread :: "rat \<times> thread_row list \<Rightarrow> thread_map \<Rightarrow> thread_map" where
  "add_thread tg threads = AList.update (thread_key (fst tg)) (map make_post (snd tg)) threads"

definition convert_threads :: "thread_row list \<Rightarrow> thread_map" where
  "convert_threads df = fold add_thread (groupby_thread_id (sort_values df)) []"

text \<open>\<open>sum(len(posts) for posts in threads_dict.values())\<close>\<close>

definition total_posts :: "thread_map \<Rightarrow> nat" where
  "total_posts threads = sum_list (map (\<lambda>posts. length posts) (map snd threads))"

text \<open>Auxiliary notions for the proofs: reading a decimal numeral back, and the entry
  that one group contributes to the dictionary.\<close>

definition digit_val :: "char \<Rightarrow> nat" where
  "digit_val c = of_char c - 48"

definition digits_val :: "string \<Rightarrow> nat" where
  "digits_val s = foldl (\<lambda>a c. 10 * a + digit_val c) 0 s"

definition thread_entry :: "rat \<times> thread_row list \<Rightarrow> string \<times> post list" where
  "thread_entry tg = (thread_key (fst tg), map make_post (snd tg))"

text \<open>Sample rows.\<close>

definition mk_row :: "rat option \<Rightarrow> rat \<Rightarrow> string \<Rightarrow> thread_row" where
  "mk_row tid pid ts =
     \<lparr> thread_id = tid, post_id = Some pid, author_role = Some ''user'', timestamp = Some ts,
       content = Some ''text'', sentiment = None, has_vaccine_keyword = None,
       replies_to_post_number = None \<rparr>"

definition two_threads :: "thread_row list" where
  "two_threads = [mk_row (Some 10) 2 ''T2'', mk_row (Some 11) 3 ''T1'', mk_row (Some 10) 1 ''T1'']"

definition tied_rows :: "thread_row list" where
  "tied_rows = [mk_row (Some 11) 5 ''T0'', mk_row (Some 10) 1 ''T1'', mk_row (Some 10) 2 ''T1'']"

section \<open>Python values and exceptions\<close>

text \<open>
  The exceptions that the modelled code can raise or catch. A computation that may raise
  returns a sum: \<open>Inl e\<close> when it raises \<open>e\<close>, \<open>Inr v\<close> when it returns \<open>v\<close>.
\<close>

datatype py_exc = JSONDecodeError | ValueError | TypeError | KeyError | UnicodeEncodeError
  | UnicodeDecodeError | RecursionError | OtherException

text \<open>
  The values a table cell or a decoded JSON document can hold. \<open>PNaN\<close> is the
  missing-value marker of pandas (a float NaN), \<open>PNone\<close> is Python's \<open>None\<close>. A numpy
  scalar and the Python scalar of the same value are one value here, so the \<open>.item()\<close>
  step of \<open>convert_annotated\<close> changes nothing.
\<close>

datatype pyval = PNone | PNaN | PBool bool | PInt int | PFloat rat | PStr string
  | PList "pyval list" | PDict "(string \<times> pyval) list"

text \<open>
  The truth value of \<open>pd.isna(value)\<close>, as an \<open>if\<close> or an \<open>or\<close> takes it. On a scalar
  \<open>pd.isna\<close> returns a boolean. On a list it returns an array of booleans, one per
  element, and the truth value of an array is its only element's when it has exactly
  one, and raises \<open>ValueError\<close> otherwise (numpy 2.2 and later; earlier versions gave
  \<open>False\<close> with a deprecation warning for the empty array, and the results below do not
  depend on that case). A mapping is not missing.
\<close>

fun isna_truth :: "pyval \<Rightarrow> py_exc + bool" where
  "isna_truth PNone = Inr True"
| "isna_truth PNaN = Inr True"
| "isna_truth (PList []) = Inl ValueError"
| "isna_truth (PList [x]) = isna_truth x"
| "isna_truth (PList (x # y # zs)) = Inl ValueError"
| "isna_truth v = Inr False"

section \<open>The annotated table\<close>

text \<open>
  \<open>parse_vaccine_types\<close>. The JSON decoder \<open>json.loads\<close> is a parameter: it returns the
  decoded value or raises. Only \<open>JSONDecodeError\<close> is caught; any other exception of the
  decoder, and the one of the missing-value test, leaves the function.
\<close>

definition parse_vaccine_types :: "(string \<Rightarrow> py_exc + pyval) \<Rightarrow> pyval \<Rightarrow> py_exc + pyval" where
  "parse_vaccine_types json_loads v =
     (case isna_truth v of
        Inl e \<Rightarrow> Inl e
      | Inr missing \<Rightarrow>
          if missing \<or> v = PStr '''' then Inr (PList [])
          else (case v of
                  PStr s \<Rightarrow>
                    (case json_loads s of
                       Inr decoded \<Rightarrow> Inr decoded
                     | Inl e \<Rightarrow> if e = JSONDecodeError then Inr (PList [v]) else Inl e)
                | _ \<Rightarrow> Inr v))"

text \<open>
  A row of the annotated table, and the record made from it, is an ordered mapping from
  column names to values; a frame is the list of its rows, and the index of a row is its
  position (the index that \<open>read_csv\<close> gives).
\<close>

type_synonym row = "(string \<times> pyval) list"

text \<open>The messages of the script; each stands for the f-string of the source with the
  values it interpolates.\<close>

datatype message =
    RowParseError nat py_exc
  | AnnotatedCountMismatch nat nat
  | ThreadsPostCountMismatch nat nat
  | MissingThreadIds nat
  | EmptyVaccineTypes nat

definition getitem :: "row \<Rightarrow> string \<Rightarrow> py_exc + pyval" where
  "getitem r k = (case map_of r k of None \<Rightarrow> Inl KeyError | Some v \<Rightarrow> Inr v)"

text \<open>
  The body of the inner loop of \<open>convert_annotated\<close> for one value: a missing value
  becomes \<open>None\<close>; a \<open>ValueError\<close> or \<open>TypeError\<close> of the test is swallowed and the value
  stays; any other exception would leave the function.
\<close>

definition normalize_value :: "pyval \<Rightarrow> py_exc + pyval" where
  "normalize_value v =
     (case isna_truth v of
        Inr missing \<Rightarrow> if missing then Inr PNone else Inr v
      | Inl e \<Rightarrow> if e = ValueError \<or> e = TypeError then Inr v else Inl e)"

fun normalize_items :: "row \<Rightarrow> py_exc + row" where
  "normalize_items [] = Inr []"
| "normalize_items ((k, v) # kvs) =
     (case normalize_value v of
        Inl e \<Rightarrow> Inl e
      | Inr v' \<Rightarrow> (case normalize_items kvs of Inl e \<Rightarrow> Inl e | Inr kvs' \<Rightarrow> Inr ((k, v') # kvs')))"

text \<open>What the \<open>try\<close> block of \<open>convert_annotated\<close> evaluates:
  \<open>parse_vaccine_types(row['vaccine_types'])\<close>.\<close>

definition parse_cell :: "(string \<Rightarrow> py_exc + pyval) \<Rightarrow> row \<Rightarrow> py_exc + pyval" where
  "parse_cell json_loads r =
     (case getitem r ''vaccine_types'' of Inl e \<Rightarrow> Inl e | Inr v \<Rightarrow> parse_vaccine_types json_loads v)"

text \<open>The loop of \<open>convert_annotated\<close>, with its two accumulators.\<close>

fun convert_rows ::
  "(string \<Rightarrow> py_exc + pyval) \<Rightarrow> nat \<Rightarrow> row list \<Rightarrow> row list \<Rightarrow> message list
     \<Rightarrow> py_exc + (row list \<times> message list)" where
  "convert_rows json_loads idx [] records parse_errors = Inr (records, parse_errors)"
| "convert_rows json_loads idx (r # rest) records parse_errors =
     (let (record, parse_errors') =
            (case parse_cell json_loads r of
               Inr v \<Rightarrow> (AList.update ''vaccine_types'' v r, parse_errors)
             | Inl e \<Rightarrow> (AList.update ''vaccine_types'' (PList []) r,
                         parse_errors @ [RowParseError idx e]))
      in case normalize_items record of
           Inl e \<Rightarrow> Inl e
         | Inr record' \<Rightarrow> convert_rows json_loads (idx + 1) rest (records @ [record']) parse_errors')"

definition convert_annotated ::
  "(string \<Rightarrow> py_exc + pyval) \<Rightarrow> row list \<Rightarrow> py_exc + (row list \<times> message list)" where
  "convert_annotated json_loads df = convert_rows json_loads 0 df [] []"

text \<open>Auxiliary notions for the proofs: what the loop makes of one value and of one row.\<close>

definition norm_value :: "pyval \<Rightarrow> pyval" where
  "norm_value v = (if isna_truth v = Inr True then PNone else v)"

definition row_record :: "(string \<Rightarrow> py_exc + pyval) \<Rightarrow> row \<Rightarrow> row" where
  "row_record json_loads r =
     map (\<lambda>(k, v). (k, norm_value v))
       (AList.update ''vaccine_types''
          (case parse_cell json_loads r of Inr v \<Rightarrow> v | Inl e \<Rightarrow> PList []) r)"

definition row_errors :: "(string \<Rightarrow> py_exc + pyval) \<Rightarrow> nat \<times> row \<Rightarrow> message list" where
  "row_errors json_loads ir =
     (case parse_cell json_loads (snd ir) of Inl e \<Rightarrow> [RowParseError (fst ir) e] | Inr v \<Rightarrow> [])"

text \<open>A stand-in for the JSON decoder that knows three documents, and a sample table.\<close>

definition sample_loads :: "string \<Rightarrow> py_exc + pyval" where
  "sample_loads s =
     (if s = ''[]'' then Inr (PList [])
      else if s = ''[\"pfizer\"]'' then Inr (PList [PStr ''pfizer''])
      else if s = ''[\"pfizer\", \"moderna\"]'' then Inr (PList [PStr ''pfizer'', PStr ''moderna''])
      else Inl JSONDecodeError)"

definition annotated_sample :: "row list" where
  "annotated_sample =
     [[(''id'', PInt 1), (''thread_id'', PInt 10), (''vaccine_types'', PStr ''[\"pfizer\"]'')],
      [(''id'', PInt 2), (''thread_id'', PInt 11), (''vaccine_types'', PStr '''')],
      [(''id'', PInt 3), (''thread_id'', PNaN), (''vaccine_types'', PStr ''not json'')],
      [(''id'', PInt 4), (''thread_id'', PInt 10),
       (''vaccine_types'', PList [PStr ''pfizer'', PStr ''moderna''])]]"

text \<open>
  A document of 100000 opening brackets, which a cell of a CSV file can hold. The decoder
  of CPython descends once per bracket and gives up at its recursion limit with
  \<open>RecursionError\<close>, which is not a \<open>JSONDecodeError\<close>. \<open>deep_loads\<close> is a stand-in for the
  decoder that knows this document too.
\<close>

definition nested_document :: string where
  "nested_document = replicate 100000 CHR ''[''"

definition deep_loads :: "string \<Rightarrow> py_exc + pyval" where
  "deep_loads s = (if s = nested_document then Inl RecursionError else sample_loads s)"

section \<open>Encryption\<close>

text \<open>
  Bytes are 8-bit words. A Python \<open>str\<close> that is encoded or measured is the list of its
  code points; text that is only passed around (column names, table cells, base64 output)
  is a \<open>string\<close>.
\<close>

type_synonym byte = "8 word"
type_synonym unicode = "nat list"

text \<open>
  \<open>data_str.encode('utf-8')\<close>: one to four bytes per code point; a surrogate cannot be
  encoded and raises \<open>UnicodeEncodeError\<close>. A number from \<open>0x110000\<close> on is not a
  character of any Python string; the model answers it with the same error.
\<close>

definition utf8_encode_char :: "nat \<Rightarrow> py_exc + byte list" where
  "utf8_encode_char cp =
     (if cp < 0x80 then Inr [of_nat cp]
      else if cp < 0x800 then Inr [of_nat (0xC0 + cp div 64), of_nat (0x80 + cp mod 64)]
      else if cp < 0x10000 then
        (if 0xD800 \<le> cp \<and> cp < 0xE000 then Inl UnicodeEncodeError
         else Inr [of_nat (0xE0 + cp div 4096), of_nat (0x80 + cp div 64 mod 64),
                   of_nat (0x80 + cp mod 64)])
      else if cp < 0x110000 then
        Inr [of_nat (0xF0 + cp div 262144), of_nat (0x80 + cp div 4096 mod 64),
             of_nat (0x80 + cp div 64 mod 64), of_nat (0x80 + cp mod 64)]
      else Inl UnicodeEncodeError)"

fun utf8_encode :: "unicode \<Rightarrow> py_exc + byte list" where
  "utf8_encode [] = Inr []"
| "utf8_encode (cp # cps) =
     (case utf8_encode_char cp of
        Inl e \<Rightarrow> Inl e
      | Inr bs \<Rightarrow> (case utf8_encode cps of Inl e \<Rightarrow> Inl e | Inr rest \<Rightarrow> Inr (bs @ rest)))"

definition is_scalar_value :: "nat \<Rightarrow> bool" where
  "is_scalar_value cp = (cp < 0x110000 \<and> \<not> (0xD800 \<le> cp \<and> cp < 0xE000))"

text \<open>
  \<open>PBKDF2(password, salt, dkLen=32, count=100000)\<close>. pycryptodome turns a \<open>str\<close>
  password into bytes with the Latin-1 codec before deriving the key (its documentation:
  strings are encoded as ISO 8859-1, which does not allow code points above 255), so a
  password with such a character raises \<open>UnicodeEncodeError\<close>. The derivation itself,
  from the password bytes, the salt, the key length and the iteration count, is the
  parameter \<open>derive\<close>; the key it returns is of any type \<open>'k\<close>.
\<close>

definition latin1_encode :: "unicode \<Rightarrow> py_exc + byte list" where
  "latin1_encode s =
     (if list_all (\<lambda>cp. cp < 256) s then Inr (map of_nat s) else Inl UnicodeEncodeError)"

definition PBKDF2 ::
  "(byte list \<Rightarrow> byte list \<Rightarrow> nat \<Rightarrow> nat \<Rightarrow> 'k) \<Rightarrow> unicode \<Rightarrow> byte list \<Rightarrow> nat \<Rightarrow> nat \<Rightarrow> py_exc + 'k" where
  "PBKDF2 derive password salt dkLen iterations =
     (case latin1_encode password of
        Inl e \<Rightarrow> Inl e
      | Inr pw \<Rightarrow> Inr (derive pw salt dkLen iterations))"

text \<open>\<open>pad(data, AES.block_size)\<close>: PKCS7, between 1 and \<open>block_size\<close> bytes, each holding
  the number of bytes added.\<close>

definition pad :: "byte list \<Rightarrow> nat \<Rightarrow> byte list" where
  "pad data_to_pad block_size =
     (let padding_len = block_size - length data_to_pad mod block_size
      in data_to_pad @ replicate padding_len (of_nat padding_len))"

text \<open>
  \<open>AES.new(key, AES.MODE_CBC, iv)\<close> and \<open>cipher.encrypt\<close>. The block function of AES
  under a key is the parameter \<open>aes\<close>; cipher block chaining is written out: each
  16-byte block is combined with the previous ciphertext block (the initialization
  vector for the first) by exclusive or and then encrypted. The library refuses an
  initialization vector that is not 16 bytes long and data that is not a whole number
  of blocks.
\<close>

definition xor_bytes :: "byte list \<Rightarrow> byte list \<Rightarrow> byte list" where
  "xor_bytes a b = map2 (\<lambda>x y. x XOR y) a b"

fun chunks :: "nat \<Rightarrow> 'a list \<Rightarrow> 'a list list" where
  "chunks n xs = (if n = 0 \<or> xs = [] then [] else take n xs # chunks n (drop n xs))"

declare chunks.simps [simp del]

fun cbc_blocks :: "('k \<Rightarrow> byte list \<Rightarrow> byte list) \<Rightarrow> 'k \<Rightarrow> byte list \<Rightarrow> byte list list \<Rightarrow> byte list" where
  "cbc_blocks aes key prev [] = []"
| "cbc_blocks aes key prev (b # bs) =
     (let c = aes key (xor_bytes b prev) in c @ cbc_blocks aes key c bs)"

definition AES_new :: "'k \<Rightarrow> byte list \<Rightarrow> py_exc + ('k \<times> byte list)" where
  "AES_new key iv = (if length iv = 16 then Inr (key, iv) else Inl ValueError)"

definition cipher_encrypt ::
  "('k \<Rightarrow> byte list \<Rightarrow> byte list) \<Rightarrow> 'k \<times> byte list \<Rightarrow> byte list \<Rightarrow> py_exc + byte list" where
  "cipher_encrypt aes cipher plaintext =
     (if length plaintext mod 16 = 0
      then Inr (cbc_blocks aes (fst cipher) (snd cipher) (chunks 16 plaintext))
      else Inl ValueError)"

text \<open>\<open>base64.b64encode(...).decode('utf-8')\<close>: three bytes become four characters of
  the standard alphabet; one or two bytes left over are padded with \<open>=\<close>.\<close>

definition b64_alphabet :: string where
  "b64_alphabet = ''ABCDEFGHIJKLMNOPQRSTUVWXYZabcdefghijklmnopqrstuvwxyz0123456789+/''"

definition b64_char :: "nat \<Rightarrow> char" where
  "b64_char n = b64_alphabet ! n"

fun b64encode :: "byte list \<Rightarrow> string" where
  "b64encode [] = []"
| "b64encode [a] =
     (let n = unat a in [b64_char (n div 4), b64_char (n mod 4 * 16), CHR ''='', CHR ''=''])"
| "b64encode [a, b] =
     (let n = unat a * 256 + unat b
      in [b64_char (n div 1024), b64_char (n div 16 mod 64), b64_char (n mod 16 * 4), CHR ''=''])"
| "b64encode (a # b # c # rest) =
     (let n = unat a * 65536 + unat b * 256 + unat c
      in [b64_char (n div 262144), b64_char (n div 4096 mod 64), b64_char (n div 64 mod 64),
          b64_char (n mod 64)] @ b64encode rest)"

text \<open>
  \<open>get_random_bytes\<close> draws from the randomness of the system. The state of that source
  is the sequence of bytes it will deliver; drawing \<open>n\<close> bytes returns the first \<open>n\<close> and
  leaves the rest.
\<close>

type_synonym rng = "nat \<Rightarrow> byte"

definition get_random_bytes :: "nat \<Rightarrow> rng \<Rightarrow> byte list \<times> rng" where
  "get_random_bytes n rng = (map rng [0..<n], \<lambda>i. rng (i + n))"

text \<open>\<open>encrypt_data\<close>, in the order of the source: salt, initialization vector, key,
  cipher object, encoding and padding, encryption, base64.\<close>

definition encrypt_data ::
  "(byte list \<Rightarrow> byte list \<Rightarrow> nat \<Rightarrow> nat \<Rightarrow> 'k) \<Rightarrow> ('k \<Rightarrow> byte list \<Rightarrow> byte list) \<Rightarrow> rng
     \<Rightarrow> unicode \<Rightarrow> unicode \<Rightarrow> (py_exc + string \<times> string \<times> string) \<times> rng" where
  "encrypt_data derive aes rng data_str password =
     (let (salt, rng1) = get_random_bytes 16 rng;
          (iv, rng2) = get_random_bytes 16 rng1;
          result =
            (case PBKDF2 derive password salt 32 100000 of
               Inl e \<Rightarrow> Inl e
             | Inr key \<Rightarrow>
                (case AES_new key iv of
                   Inl e \<Rightarrow> Inl e
                 | Inr cipher \<Rightarrow>
                    (case utf8_encode data_str of
                       Inl e \<Rightarrow> Inl e
                     | Inr data \<Rightarrow>
                        (case cipher_encrypt aes cipher (pad data 16) of
                           Inl e \<Rightarrow> Inl e
                         | Inr encrypted \<Rightarrow>
                             Inr (b64encode encrypted, b64encode salt, b64encode iv)))))
      in (result, rng2))"

subsection \<open>The decryption that the specification describes\<close>

text \<open>
  The script does not decrypt; the viewer does. The round-trip property of the
  specification is stated against the decryption it describes: decode the three base64
  texts, derive the key from the password and the salt with the same function and the
  same 100000 iterations, undo the block chaining with the inverse block function,
  remove the PKCS7 padding, and decode UTF-8.
\<close>

fun index_of :: "'a \<Rightarrow> 'a list \<Rightarrow> nat" where
  "index_of x [] = 0"
| "index_of x (y # ys) = (if x = y then 0 else Suc (index_of x ys))"

definition b64_index :: "char \<Rightarrow> nat" where
  "b64_index c = index_of c b64_alphabet"

definition b64_join :: "string \<Rightarrow> nat" where
  "b64_join cs = foldl (\<lambda>v c. v * 64 + b64_index c) 0 cs"

fun b64decode :: "string \<Rightarrow> byte list" where
  "b64decode (c0 # c1 # c2 # c3 # rest) =
     (if c2 = CHR ''='' then [of_nat (b64_join [c0, c1] div 16)]
      else if c3 = CHR ''='' then
        (let m = b64_join [c0, c1, c2] in [of_nat (m div 1024), of_nat (m div 4 mod 256)])
      else
        (let m = b64_join [c0, c1, c2, c3]
         in [of_nat (m div 65536), of_nat (m div 256 mod 256), of_nat (m mod 256)]
            @ b64decode rest))"
| "b64decode cs = []"

fun cbc_unblocks :: "('k \<Rightarrow> byte list \<Rightarrow> byte list) \<Rightarrow> 'k \<Rightarrow> byte list \<Rightarrow> byte list list \<Rightarrow> byte list" where
  "cbc_unblocks aes_inv key prev [] = []"
| "cbc_unblocks aes_inv key prev (c # cs) =
     xor_bytes (aes_inv key c) prev @ cbc_unblocks aes_inv key c cs"

definition cbc_decrypt ::
  "('k \<Rightarrow> byte list \<Rightarrow> byte list) \<Rightarrow> 'k \<Rightarrow> byte list \<Rightarrow> byte list \<Rightarrow> py_exc + byte list" where
  "cbc_decrypt aes_inv key iv ciphertext =
     (if length iv = 16 \<and> length ciphertext mod 16 = 0
      then Inr (cbc_unblocks aes_inv key iv (chunks 16 ciphertext))
      else Inl ValueError)"

definition unpad :: "byte list \<Rightarrow> nat \<Rightarrow> py_exc + byte list" where
  "unpad padded block_size =
     (if padded = [] \<or> length padded mod block_size \<noteq> 0 then Inl ValueError
      else let padding_len = unat (last padded) in
        if padding_len < 1 \<or> padding_len > min block_size (length padded) then Inl ValueError
        else if drop (length padded - padding_len) padded \<noteq> replicate padding_len (last padded)
          then Inl ValueError
        else Inr (take (length padded - padding_len) padded))"

definition is_cont :: "byte \<Rightarrow> bool" where
  "is_cont b = (0x80 \<le> unat b \<and> unat b < 0xC0)"

definition cont :: "byte \<Rightarrow> nat" where
  "cont b = unat b - 0x80"

definition utf8_join :: "nat \<Rightarrow> byte list \<Rightarrow> nat" where
  "utf8_join lead cs = foldl (\<lambda>v b. v * 64 + cont b) lead cs"

definition decoded :: "nat \<Rightarrow> py_exc + unicode \<Rightarrow> py_exc + unicode" where
  "decoded cp r = (case r of Inl e \<Rightarrow> Inl e | Inr cps \<Rightarrow> Inr (cp # cps))"

fun utf8_decode :: "byte list \<Rightarrow> py_exc + unicode" where
  "utf8_decode [] = Inr []"
| "utf8_decode (b0 # rest) =
     (let n0 = unat b0 in
      if n0 < 0x80 then decoded n0 (utf8_decode rest)
      else if 0xC0 \<le> n0 \<and> n0 < 0xE0 then
        (case rest of
           b1 # r1 \<Rightarrow>
             if is_cont b1 then decoded (utf8_join (n0 - 0xC0) [b1]) (utf8_decode r1)
             else Inl UnicodeDecodeError
         | _ \<Rightarrow> Inl UnicodeDecodeError)
      else if 0xE0 \<le> n0 \<and> n0 < 0xF0 then
        (case rest of
           b1 # b2 # r2 \<Rightarrow>
             if is_cont b1 \<and> is_cont b2
             then decoded (utf8_join (n0 - 0xE0) [b1, b2]) (utf8_decode r2)
             else Inl UnicodeDecodeError
         | _ \<Rightarrow> Inl UnicodeDecodeError)
      else if 0xF0 \<le> n0 \<and> n0 < 0xF8 then
        (case rest of
           b1 # b2 # b3 # r3 \<Rightarrow>
             if is_cont b1 \<and> is_cont b2 \<and> is_cont b3
             then decoded (utf8_join (n0 - 0xF0) [b1, b2, b3]) (utf8_decode r3)
             else Inl UnicodeDecodeError
         | _ \<Rightarrow> Inl UnicodeDecodeError)
      else Inl UnicodeDecodeError)"

definition decrypt_data ::
  "(byte list \<Rightarrow> byte list \<Rightarrow> nat \<Rightarrow> nat \<Rightarrow> 'k) \<Rightarrow> ('k \<Rightarrow> byte list \<Rightarrow> byte list)
     \<Rightarrow> string \<times> string \<times> string \<Rightarrow> unicode \<Rightarrow> py_exc + unicode" where
  "decrypt_data derive aes_inv blob password =
     (case blob of (encrypted_b64, salt_b64, iv_b64) \<Rightarrow>
        (case PBKDF2 derive password (b64decode salt_b64) 32 100000 of
           Inl e \<Rightarrow> Inl e
         | Inr key \<Rightarrow>
            (case cbc_decrypt aes_inv key (b64decode iv_b64) (b64decode encrypted_b64) of
               Inl e \<Rightarrow> Inl e
             | Inr padded \<Rightarrow>
                (case unpad padded 16 of Inl e \<Rightarrow> Inl e | Inr data \<Rightarrow> utf8_decode data))))"

subsection \<open>Stand-ins and samples\<close>

text \<open>
  A key derivation and a block function to run the model on: the key is the first bytes
  of password and salt, the block function is exclusive or with the key. They are not
  PBKDF2 and AES; they show that what the theorems assume of the block function can be
  met.
\<close>

definition toy_derive :: "byte list \<Rightarrow> byte list \<Rightarrow> nat \<Rightarrow> nat \<Rightarrow> byte list" where
  "toy_derive pw salt dkLen iterations = take dkLen (pw @ salt @ replicate dkLen 0)"

definition toy_aes :: "byte list \<Rightarrow> byte list \<Rightarrow> byte list" where
  "toy_aes key block = xor_bytes block (take 16 (key @ replicate 16 0))"

definition sample_text :: unicode where
  "sample_text = [0x68, 0xE9, 0x20AC, 0x1F600]"

definition sample_password :: unicode where
  "sample_password = map of_char ''password''"

definition cyrillic_password :: unicode where
  "cyrillic_password = [0x43F, 0x430, 0x440, 0x43E, 0x43B, 0x44C, 0x31, 0x32]"

definition sample_rng :: rng where
  "sample_rng i = of_nat (7 * i)"

definition other_rng :: rng where
  "other_rng i = (if i < 32 then of_nat (7 * i) else 0)"

section \<open>Validation and the pipeline\<close>

text \<open>
  \<open>set(...)\<close> needs hashable elements and identifies equal ones: \<open>True\<close>, \<open>1\<close> and \<open>1.0\<close>
  are one element. A NaN equals nothing, not even another NaN, so a set tells NaN
  objects apart by identity; the NaN of each record is an object of its own, and
  \<open>HNaN i\<close> stands for the one of record \<open>i\<close>. \<open>hash_key i v\<close> gives the element that the
  value \<open>v\<close> of record \<open>i\<close> stands for, or \<open>TypeError\<close> for a list or a mapping.
\<close>

datatype hkey = HNone | HNaN nat | HNum rat | HStr string

fun hash_key :: "nat \<Rightarrow> pyval \<Rightarrow> py_exc + hkey" where
  "hash_key i PNone = Inr HNone"
| "hash_key i PNaN = Inr (HNaN i)"
| "hash_key i (PBool b) = Inr (HNum (if b then 1 else 0))"
| "hash_key i (PInt n) = Inr (HNum (of_int n))"
| "hash_key i (PFloat q) = Inr (HNum q)"
| "hash_key i (PStr s) = Inr (HStr s)"
| "hash_key i (PList xs) = Inl TypeError"
| "hash_key i (PDict d) = Inl TypeError"

text \<open>The truth value of a Python value, as \<open>not r['vaccine_types']\<close> takes it.\<close>

fun py_truthy :: "pyval \<Rightarrow> bool" where
  "py_truthy PNone = False"
| "py_truthy PNaN = True"
| "py_truthy (PBool b) = b"
| "py_truthy (PInt i) = (i \<noteq> 0)"
| "py_truthy (PFloat q) = (q \<noteq> 0)"
| "py_truthy (PStr s) = (s \<noteq> [])"
| "py_truthy (PList xs) = (xs \<noteq> [])"
| "py_truthy (PDict d) = (d \<noteq> [])"

text \<open>
  \<open>int(k)\<close> on a string of ASCII characters: blanks around it (space, tab, line feed,
  vertical tab, form feed, carriage return) are dropped, a sign may lead, and the digits
  may be separated by single underscores; anything else raises \<open>ValueError\<close>.
\<close>

definition is_space :: "char \<Rightarrow> bool" where
  "is_space c = (c \<in> set [CHR 0x09, CHR 0x0A, CHR 0x0B, CHR 0x0C, CHR 0x0D, CHR 0x20])"

definition is_digit :: "char \<Rightarrow> bool" where
  "is_digit c = (CHR ''0'' \<le> c \<and> c \<le> CHR ''9'')"

definition strip :: "string \<Rightarrow> string" where
  "strip s = rev (dropWhile is_space (rev (dropWhile is_space s)))"

fun parse_digits :: "nat \<Rightarrow> string \<Rightarrow> nat option" where
  "parse_digits acc [] = Some acc"
| "parse_digits acc (c # cs) =
     (if is_digit c then parse_digits (10 * acc + digit_val c) cs
      else if c = CHR ''_'' \<and> cs \<noteq> [] \<and> is_digit (hd cs) then parse_digits acc cs
      else None)"

definition int_of_str :: "string \<Rightarrow> py_exc + int" where
  "int_of_str s =
     (let t = strip s;
          negative = (t \<noteq> [] \<and> hd t = CHR ''-'');
          ds = (if t \<noteq> [] \<and> (hd t = CHR ''-'' \<or> hd t = CHR ''+'') then tl t else t)
      in if ds \<noteq> [] \<and> is_digit (hd ds) then
           (case parse_digits 0 ds of
              Some n \<Rightarrow> Inr (if negative then - int n else int n)
            | None \<Rightarrow> Inl ValueError)
         else Inl ValueError)"

text \<open>Evaluating a generator over a list: the first exception ends it.\<close>

fun collect :: "('a \<Rightarrow> py_exc + 'b) \<Rightarrow> 'a list \<Rightarrow> py_exc + 'b list" where
  "collect f [] = Inr []"
| "collect f (x # xs) =
     (case f x of
        Inl e \<Rightarrow> Inl e
      | Inr y \<Rightarrow> (case collect f xs of Inl e \<Rightarrow> Inl e | Inr ys \<Rightarrow> Inr (y # ys)))"

text \<open>The element of \<open>annotated_thread_ids\<close> that record \<open>i\<close> contributes.\<close>

definition record_thread_id :: "nat \<times> row \<Rightarrow> py_exc + hkey" where
  "record_thread_id ir =
     (case getitem (snd ir) ''thread_id'' of Inl e \<Rightarrow> Inl e | Inr v \<Rightarrow> hash_key (fst ir) v)"

definition key_thread_id :: "string \<Rightarrow> py_exc + hkey" where
  "key_thread_id k = (case int_of_str k of Inl e \<Rightarrow> Inl e | Inr i \<Rightarrow> Inr (HNum (of_int i)))"

text \<open>\<open>validate_data\<close>. Of the two frames only the number of rows is used.\<close>

definition validate_data ::
  "row list \<Rightarrow> thread_map \<Rightarrow> row list \<Rightarrow> thread_row list \<Rightarrow> py_exc + (message list \<times> message list)" where
  "validate_data annotated_records threads_dict annotated_df threads_df =
     (let errors1 =
            (if length annotated_records \<noteq> length annotated_df
             then [AnnotatedCountMismatch (length annotated_records) (length annotated_df)]
             else []);
          total = total_posts threads_dict;
          errors =
            errors1 @ (if total \<noteq> length threads_df
                       then [ThreadsPostCountMismatch total (length threads_df)] else [])
      in case collect record_thread_id (enumerate 0 annotated_records) of
           Inl e \<Rightarrow> Inl e
         | Inr annotated_thread_ids \<Rightarrow>
            (case collect key_thread_id (map fst threads_dict) of
               Inl e \<Rightarrow> Inl e
             | Inr threads_thread_ids \<Rightarrow>
                (let missing_in_threads =
                       filter (\<lambda>k. k \<notin> set threads_thread_ids) (remdups annotated_thread_ids);
                     warnings1 =
                       (if missing_in_threads \<noteq> []
                        then [MissingThreadIds (length missing_in_threads)] else [])
                 in case collect (\<lambda>r. getitem r ''vaccine_types'') annotated_records of
                      Inl e \<Rightarrow> Inl e
                    | Inr cells \<Rightarrow>
                       (let empty_vaccine_types = length (filter (\<lambda>v. \<not> py_truthy v) cells)
                        in Inr (errors,
                                warnings1 @ (if empty_vaccine_types > 0
                                             then [EmptyVaccineTypes empty_vaccine_types]
                                             else []))))))"

text \<open>
  \<open>main\<close>. Its inputs are the password, the two tables as \<open>read_csv\<close> delivers them
  (\<open>None\<close> when the file does not exist), the files of the output directory and the
  randomness; it returns the result (\<open>True\<close>, \<open>False\<close> or an exception), the files and
  the randomness left. A file holds what is dumped into it. The serializer of the thread
  dictionary, \<open>json.dumps\<close>, is a parameter. Console output is not modelled.
\<close>

datatype artifact =
    AnnotatedJson "row list"
  | ThreadsEncrypted string
  | EncryptionConfig string string nat nat string

type_synonym files = "(string \<times> artifact) list"

definition main ::
  "(string \<Rightarrow> py_exc + pyval) \<Rightarrow> (thread_map \<Rightarrow> unicode) \<Rightarrow> (byte list \<Rightarrow> byte list \<Rightarrow> nat \<Rightarrow> nat \<Rightarrow> 'k)
     \<Rightarrow> ('k \<Rightarrow> byte list \<Rightarrow> byte list) \<Rightarrow> unicode \<Rightarrow> row list option \<Rightarrow> thread_row list option
     \<Rightarrow> files \<Rightarrow> rng \<Rightarrow> (py_exc + bool) \<times> files \<times> rng" where
  "main json_loads json_dumps derive aes password annotated_csv threads_csv fs rng =
     (if length password < 8 then (Inr False, fs, rng)
      else case annotated_csv of
        None \<Rightarrow> (Inr False, fs, rng)
      | Some annotated_df \<Rightarrow>
         (case threads_csv of
            None \<Rightarrow> (Inr False, fs, rng)
          | Some threads_df \<Rightarrow>
             (case convert_annotated json_loads annotated_df of
                Inl e \<Rightarrow> (Inl e, fs, rng)
              | Inr (annotated_records, parse_errors) \<Rightarrow>
                 (let threads_dict = convert_threads threads_df in
                  case validate_data annotated_records threads_dict annotated_df threads_df of
                    Inl e \<Rightarrow> (Inl e, fs, rng)
                  | Inr (errors, warnings) \<Rightarrow>
                     if errors \<noteq> [] then (Inr False, fs, rng)
                     else
                       (let fs1 = AList.update ''annotated.json'' (AnnotatedJson annotated_records) fs;
                            (result, rng') =
                               encrypt_data derive aes rng (json_dumps threads_dict) password
                        in case result of
                             Inl e \<Rightarrow> (Inl e, fs1, rng')
                           | Inr (encrypted_data, salt, iv) \<Rightarrow>
                              (let fs2 = AList.update ''threads.encrypted''
                                           (ThreadsEncrypted encrypted_data) fs1;
                                   fs3 = AList.update ''encryption_config.json''
                                           (EncryptionConfig salt iv 100000 256 ''AES-CBC'') fs2
                               in (Inr True, fs3, rng')))))))"

text \<open>A stand-in serializer and a thread table whose only row has no thread id.\<close>

definition sample_dumps :: "thread_map \<Rightarrow> unicode" where
  "sample_dumps threads =
     concat (map (\<lambda>(k, posts). map of_char k @ [58, length posts + 48, 59]) threads)"

definition orphan_posts :: "thread_row list" where
  "orphan_posts = [mk_row None 1 ''T1'']"

section \<open>Properties of the thread grouper\<close>

subsection \<open>Decimal rendering is injective\<close>

lemma digit_val_digit_char: "d < 10 \<Longrightarrow> digit_val (digit_char d) = d"
proof -
  assume "d < 10"
  then have "d \<in> {0, 1, 2, 3, 4, 5, 6, 7, 8, 9}" by auto
  then show ?thesis by (auto simp: digit_val_def digit_char_def)
qed

lemma digit_char_not_minus: "d < 10 \<Longrightarrow> digit_char d \<noteq> CHR ''-''"
proof -
  assume "d < 10"
  then have "d \<in> {0, 1, 2, 3, 4, 5, 6, 7, 8, 9}" by auto
  then show ?thesis by (auto simp: digit_char_def)
qed

lemma digits_val_digits: "digits_val (digits n) = n"
proof (induction n rule: digits.induct)
  case (1 n)
  show ?case
  proof (cases "n < 10")
    case True
    then show ?thesis by (simp add: digits.simps[of n] digits_val_def digit_val_digit_char)
  next
    case False
    have "digits n = digits (n div 10) @ [digit_char (n mod 10)]"
      using False by (subst digits.simps) simp
    moreover have "digits_val (digits (n div 10)) = n div 10" using 1 False by simp
    ultimately show ?thesis
      by (simp add: digits_val_def digit_val_digit_char)
  qed
qed

lemma hd_digits: "digits n \<noteq> [] \<and> hd (digits n) \<noteq> CHR ''-''"
proof (induction n rule: digits.induct)
  case (1 n)
  show ?case
  proof (cases "n < 10")
    case True
    then show ?thesis by (simp add: digits.simps[of n] digit_char_not_minus)
  next
    case False
    have "digits n = digits (n div 10) @ [digit_char (n mod 10)]"
      using False by (subst digits.simps) simp
    then show ?thesis using 1 False by simp
  qed
qed

lemma str_int_inj: "str_int i = str_int j \<Longrightarrow> i = j"
proof -
  assume eq: "str_int i = str_int j"
  have neg: "\<And>a b. a < 0 \<Longrightarrow> \<not> b < 0 \<Longrightarrow> str_int a \<noteq> str_int b"
  proof
    fix a b :: int assume "a < 0" "\<not> b < 0" "str_int a = str_int b"
    then have "CHR ''-'' # digits (nat (- a)) = digits (nat b)" by (simp add: str_int_def)
    then have "hd (digits (nat b)) = CHR ''-''" by (metis list.sel(1))
    then show False using hd_digits by blast
  qed
  show ?thesis
  proof (cases "i < 0")
    case True
    then have j: "j < 0" using neg eq by blast
    then have "digits (nat (- i)) = digits (nat (- j))" using True eq by (simp add: str_int_def)
    then have "nat (- i) = nat (- j)" by (metis digits_val_digits)
    then show ?thesis using True j by simp
  next
    case False
    then have j: "\<not> j < 0" using neg eq by metis
    then have "digits (nat i) = digits (nat j)" using False eq by (simp add: str_int_def)
    then have "nat i = nat j" by (metis digits_val_digits)
    then show ?thesis using False j by simp
  qed
qed

subsection \<open>Filling the dictionary\<close>

lemma update_fresh: "k \<notin> fst ` set al \<Longrightarrow> AList.update k v al = al @ [(k, v)]"
  by (induction al) auto

lemma set_update_subset: "set (AList.update k v al) \<subseteq> insert (k, v) (set al)"
  by (induction al) auto

lemma total_posts_update: "total_posts (AList.update k v al) \<le> length v + total_posts al"
  by (induction al) (auto simp: total_posts_def)

lemma fold_add_thread_distinct:
  "distinct (map (thread_key \<circ> fst) gs) \<Longrightarrow> (thread_key \<circ> fst) ` set gs \<inter> fst ` set al = {} \<Longrightarrow>
   fold add_thread gs al = al @ map thread_entry gs"
proof (induction gs arbitrary: al)
  case Nil
  then show ?case by simp
next
  case (Cons g gs)
  have fresh: "thread_key (fst g) \<notin> fst ` set al" using Cons.prems(2) by auto
  have step: "add_thread g al = al @ [thread_entry g]"
    using fresh by (simp add: add_thread_def thread_entry_def update_fresh)
  have "(thread_key \<circ> fst) ` set gs \<inter> fst ` set (al @ [thread_entry g]) = {}"
    using Cons.prems by (auto simp: thread_entry_def)
  moreover have "distinct (map (thread_key \<circ> fst) gs)" using Cons.prems(1) by (simp add: comp_def)
  ultimately have "fold add_thread gs (al @ [thread_entry g]) = (al @ [thread_entry g]) @ map thread_entry gs"
    by (rule Cons.IH[rotated])
  then show ?case using step by simp
qed

lemma fold_add_thread_subset:
  "set (fold add_thread gs al) \<subseteq> set al \<union> thread_entry ` set gs"
proof (induction gs arbitrary: al)
  case Nil
  then show ?case by simp
next
  case (Cons g gs)
  have "set (add_thread g al) \<subseteq> insert (thread_entry g) (set al)"
    unfolding add_thread_def thread_entry_def by (rule set_update_subset)
  then show ?case using Cons.IH[of "add_thread g al"] by auto
qed

lemma fold_add_thread_total:
  "total_posts (fold add_thread gs al) \<le> total_posts al + sum_list (map (\<lambda>g. length (snd g)) gs)"
proof (induction gs arbitrary: al)
  case Nil
  then show ?case by simp
next
  case (Cons g gs)
  have "total_posts (add_thread g al) \<le> length (snd g) + total_posts al"
    unfolding add_thread_def
    using total_posts_update[of "thread_key (fst g)" "map make_post (snd g)" al] by simp
  then show ?case using Cons.IH[of "add_thread g al"] by simp
qed

subsection \<open>The groups partition the rows that have a key\<close>

lemma sum_list_single_key:
  "distinct ks \<Longrightarrow>
   (\<Sum>k\<leftarrow>ks. if y = Some k then {#x#} else {#}) = (if y \<in> Some ` set ks then {#x#} else {#})"
  by (induction ks) auto

lemma mset_groups:
  "distinct ks \<Longrightarrow>
   (\<Sum>k\<leftarrow>ks. mset (filter (\<lambda>r. f r = Some k) xs)) = mset (filter (\<lambda>r. f r \<in> Some ` set ks) xs)"
proof (induction xs)
  case Nil
  then show ?case by simp
next
  case (Cons x xs)
  have "(\<Sum>k\<leftarrow>ks. mset (filter (\<lambda>r. f r = Some k) (x # xs)))
      = (\<Sum>k\<leftarrow>ks. (if f x = Some k then {#x#} else {#}) + mset (filter (\<lambda>r. f r = Some k) xs))"
    by (rule arg_cong[where f = sum_list]) (rule map_cong, auto)
  also have "\<dots> = (\<Sum>k\<leftarrow>ks. if f x = Some k then {#x#} else {#})
                + (\<Sum>k\<leftarrow>ks. mset (filter (\<lambda>r. f r = Some k) xs))"
    by (simp add: sum_list_addf)
  also have "\<dots> = (if f x \<in> Some ` set ks then {#x#} else {#})
                + mset (filter (\<lambda>r. f r \<in> Some ` set ks) xs)"
    using Cons by (simp add: sum_list_single_key)
  finally show ?case by simp
qed

lemma set_group_keys: "set (group_keys df) = {t. Some t \<in> thread_id ` set df}"
proof (rule set_eqI)
  fix t
  have "t \<in> set (group_keys df) \<longleftrightarrow> (\<exists>r\<in>set df. thread_id r \<noteq> None \<and> t = the (thread_id r))"
    by (auto simp: group_keys_def)
  also have "\<dots> \<longleftrightarrow> (\<exists>r\<in>set df. thread_id r = Some t)"
    by (intro bex_cong refl) auto
  also have "\<dots> \<longleftrightarrow> Some t \<in> thread_id ` set df"
    by force
  finally show "t \<in> set (group_keys df) \<longleftrightarrow> t \<in> {t. Some t \<in> thread_id ` set df}" by simp
qed

lemma distinct_group_keys: "distinct (group_keys df)"
  by (simp add: group_keys_def)

lemma present_iff_key:
  "(thread_id r \<in> Some ` set (group_keys df)) = (thread_id r \<noteq> None \<and> thread_id r \<in> thread_id ` set df)"
  by (auto simp: set_group_keys)

lemma mset_concat_groups:
  "mset (concat (map snd (groupby_thread_id df))) = mset (filter (\<lambda>r. thread_id r \<noteq> None) df)"
proof -
  have "mset (concat (map snd (groupby_thread_id df)))
      = (\<Sum>k\<leftarrow>group_keys df. mset (filter (\<lambda>r. thread_id r = Some k) df))"
    by (simp add: groupby_thread_id_def mset_concat comp_def)
  also have "\<dots> = mset (filter (\<lambda>r. thread_id r \<in> Some ` set (group_keys df)) df)"
    by (rule mset_groups[OF distinct_group_keys])
  also have "\<dots> = mset (filter (\<lambda>r. thread_id r \<noteq> None) df)"
    by (rule arg_cong[where f = mset], rule filter_cong) (auto simp: present_iff_key)
  finally show ?thesis .
qed

lemma total_posts_length_concat: "total_posts al = length (concat (map snd al))"
  by (simp add: total_posts_def length_concat comp_def)

lemma groupby_filter_present:
  "groupby_thread_id (filter (\<lambda>r. thread_id r \<noteq> None) df) = groupby_thread_id df"
proof -
  have k: "group_keys (filter (\<lambda>r. thread_id r \<noteq> None) df) = group_keys df"
    by (simp add: group_keys_def filter_map comp_def)
  have g: "\<And>k. filter (\<lambda>r. thread_id r = Some k) (filter (\<lambda>r. thread_id r \<noteq> None) df)
              = filter (\<lambda>r. thread_id r = Some k) df"
    by (simp, rule filter_cong) auto
  show ?thesis unfolding groupby_thread_id_def k g ..
qed

lemma sort_values_filter: "sort_values (filter P df) = filter P (sort_values df)"
  by (simp add: sort_values_def filter_sort)

lemma convert_threads_drops_missing:
  "convert_threads df = convert_threads (filter (\<lambda>r. thread_id r \<noteq> None) df)"
  unfolding convert_threads_def sort_values_filter groupby_filter_present ..

lemma total_posts_bound:
  "total_posts (convert_threads df) \<le> length (filter (\<lambda>r. thread_id r \<noteq> None) df)"
proof -
  let ?gs = "groupby_thread_id (sort_values df)"
  have "total_posts (convert_threads df) \<le> sum_list (map (\<lambda>g. length (snd g)) ?gs)"
    using fold_add_thread_total[of ?gs "[]"] by (simp add: convert_threads_def total_posts_def)
  also have "\<dots> = length (concat (map snd ?gs))" by (simp add: length_concat comp_def)
  also have "\<dots> = size (mset (concat (map snd ?gs)))" by simp
  also have "\<dots> = size (mset (filter (\<lambda>r. thread_id r \<noteq> None) (sort_values df)))"
    by (simp only: mset_concat_groups)
  also have "\<dots> = length (filter (\<lambda>r. thread_id r \<noteq> None) (sort_values df))"
    by (simp only: size_mset)
  also have "\<dots> = length (sort_values (filter (\<lambda>r. thread_id r \<noteq> None) df))"
    by (simp only: sort_values_filter)
  also have "\<dots> = length (filter (\<lambda>r. thread_id r \<noteq> None) df)"
    by (simp only: sort_values_def length_sort)
  finally show ?thesis .
qed

lemma convert_threads_distinct:
  assumes inj: "inj_on py_int {t. Some t \<in> thread_id ` set df}"
  shows "convert_threads df = map thread_entry (groupby_thread_id (sort_values df))"
proof -
  let ?s = "sort_values df"
  have ids: "set (group_keys ?s) = {t. Some t \<in> thread_id ` set df}"
    by (simp add: set_group_keys sort_values_def)
  have "inj_on thread_key (set (group_keys ?s))"
    unfolding ids thread_key_def using inj str_int_inj by (auto simp: inj_on_def)
  then have "distinct (map thread_key (group_keys ?s))"
    by (simp add: distinct_map distinct_group_keys)
  then have "distinct (map (thread_key \<circ> fst) (groupby_thread_id ?s))"
    by (simp add: groupby_thread_id_def comp_def)
  then show ?thesis
    using fold_add_thread_distinct[of "groupby_thread_id ?s" "[]"] by (simp add: convert_threads_def)
qed

lemma convert_threads_partition:
  assumes present: "\<forall>r\<in>set df. thread_id r \<noteq> None"
    and inj: "inj_on py_int {t. Some t \<in> thread_id ` set df}"
  shows "mset (concat (map snd (convert_threads df))) = mset (map make_post df)"
proof -
  let ?gs = "groupby_thread_id (sort_values df)"
  have all: "filter (\<lambda>r. thread_id r \<noteq> None) (sort_values df) = sort_values df"
    using present by (simp add: sort_values_def)
  have "concat (map snd (convert_threads df)) = map make_post (concat (map snd ?gs))"
    by (simp add: convert_threads_distinct[OF inj] thread_entry_def comp_def map_concat)
  then have "mset (concat (map snd (convert_threads df)))
      = image_mset make_post (mset (concat (map snd ?gs)))"
    by simp
  also have "\<dots> = image_mset make_post (mset (sort_values df))"
    by (simp only: mset_concat_groups all)
  also have "\<dots> = mset (map make_post df)" by (simp add: sort_values_def)
  finally show ?thesis .
qed

text \<open>
  Why the second hypothesis of the partition lemma is there: thread ids \<open>3/2\<close> and \<open>6/5\<close>
  are two groups with the one key \<open>"1"\<close>, and the second assignment replaces the first.
\<close>

lemma fractional_ids_collide:
  "convert_threads [mk_row (Some (3/2)) 1 ''T1'', mk_row (Some (6/5)) 2 ''T1'']
     = [(''1'', [make_post (mk_row (Some (3/2)) 1 ''T1'')])]"
  by code_simp

lemma group_rows_stable:
  "filter (\<lambda>r. timestamp r = ts) (filter (\<lambda>r. thread_id r = Some t) (sort_values df))
     = filter (\<lambda>r. thread_id r = Some t \<and> timestamp r = ts) df"
proof -
  have key: "(thread_id r = Some t \<and> timestamp r = ts) = (sort_by r = (na_last (Some t), na_last ts))"
    for r by (auto simp: sort_by_def na_last_def)
  have "filter (\<lambda>r. timestamp r = ts) (filter (\<lambda>r. thread_id r = Some t) (sort_values df))
      = filter (\<lambda>r. sort_by r = (na_last (Some t), na_last ts)) (sort_values df)"
    by (simp add: key)
  also have "\<dots> = filter (\<lambda>r. sort_by r = (na_last (Some t), na_last ts)) df"
    unfolding sort_values_def by (rule sort_key_stable)
  finally show ?thesis by (simp add: key)
qed

subsection \<open>The claims about \<open>convert_threads\<close>\<close>

text \<open>
  C2, as stated, fails: a table whose only row has no \<open>thread_id\<close> yields an empty
  dictionary, so the total post count is 0 and not 1.
\<close>

theorem C2_missing_thread_id_counterexample:
  "total_posts (convert_threads [mk_row None 1 ''T1'']) \<noteq> length [mk_row None 1 ''T1'']"
  by code_simp

text \<open>
  C2 (amended): when every row of the thread-post table has a \<open>thread_id\<close> and distinct
  thread ids have distinct integer parts (in particular when the ids are integers), the
  lengths of the post sequences of the returned dictionary add up to the number of input
  rows, and the posts of all the groups together are exactly the posts of the input rows,
  each as often as it occurs in the input: no row is dropped and none is duplicated.
\<close>

theorem C2_posts_partition_rows:
  assumes "\<forall>r\<in>set df. thread_id r \<noteq> None"
    and "inj_on py_int {t. Some t \<in> thread_id ` set df}"
  shows "total_posts (convert_threads df) = length df \<and>
         mset (concat (map snd (convert_threads df))) = mset (map make_post df)"
proof -
  have m: "mset (concat (map snd (convert_threads df))) = mset (map make_post df)"
    using assms by (rule convert_threads_partition)
  have "total_posts (convert_threads df) = size (mset (concat (map snd (convert_threads df))))"
    by (simp add: total_posts_length_concat)
  also have "\<dots> = length df" by (simp only: m) simp
  finally show ?thesis using m by simp
qed

theorem C2_posts_partition_rows_witness:
  "list_all (\<lambda>r. thread_id r \<noteq> None) two_threads \<and>
   inj_on py_int {t. Some t \<in> thread_id ` set two_threads} \<and>
   total_posts (convert_threads two_threads) = length two_threads \<and>
   mset (concat (map snd (convert_threads two_threads))) = mset (map make_post two_threads)"
proof -
  have p: "\<forall>r\<in>set two_threads. thread_id r \<noteq> None"
    by (simp add: two_threads_def mk_row_def)
  have "{t. Some t \<in> thread_id ` set two_threads} = {10, 11}"
    by (auto simp: two_threads_def mk_row_def)
  then have i: "inj_on py_int {t. Some t \<in> thread_id ` set two_threads}"
    by (simp add: py_int_def)
  show ?thesis using p i C2_posts_partition_rows[OF p i] by (simp add: list_all_iff)
qed

text \<open>
  C3: the sort of \<open>convert_threads\<close> is stable. Every entry of the returned dictionary is
  the post sequence of the rows of one thread id, taken in sorted order, and within that
  row sequence the rows that share a timestamp (missing timestamps included) stand in
  the order in which the input table has them.
\<close>

theorem C3_sort_is_stable:
  "\<forall>(k, ps) \<in> set (convert_threads df). \<exists>t group.
      Some t \<in> thread_id ` set df \<and> k = str_int (py_int t) \<and>
      group = filter (\<lambda>r. thread_id r = Some t) (sort_values df) \<and> ps = map make_post group \<and>
      (\<forall>ts. filter (\<lambda>r. timestamp r = ts) group
            = filter (\<lambda>r. thread_id r = Some t \<and> timestamp r = ts) df)"
proof (clarify)
  fix k ps assume "(k, ps) \<in> set (convert_threads df)"
  then have "(k, ps) \<in> thread_entry ` set (groupby_thread_id (sort_values df))"
    using fold_add_thread_subset[of "groupby_thread_id (sort_values df)" "[]"]
    by (auto simp: convert_threads_def)
  then obtain t where t: "t \<in> set (group_keys (sort_values df))"
    and k: "k = thread_key t"
    and ps: "ps = map make_post (filter (\<lambda>r. thread_id r = Some t) (sort_values df))"
    by (auto simp: groupby_thread_id_def thread_entry_def)
  from t have "Some t \<in> thread_id ` set df" by (simp add: set_group_keys sort_values_def)
  then show "\<exists>t group. Some t \<in> thread_id ` set df \<and> k = str_int (py_int t) \<and>
      group = filter (\<lambda>r. thread_id r = Some t) (sort_values df) \<and> ps = map make_post group \<and>
      (\<forall>ts. filter (\<lambda>r. timestamp r = ts) group
            = filter (\<lambda>r. thread_id r = Some t \<and> timestamp r = ts) df)"
    using k ps group_rows_stable by (auto simp: thread_key_def)
qed

theorem C3_sort_is_stable_witness:
  "(''10'', map make_post [mk_row (Some 10) 1 ''T1'', mk_row (Some 10) 2 ''T1''])
      \<in> set (convert_threads tied_rows) \<and>
   (\<exists>t group.
      Some t \<in> thread_id ` set tied_rows \<and> ''10'' = str_int (py_int t) \<and>
      group = filter (\<lambda>r. thread_id r = Some t) (sort_values tied_rows) \<and>
      map make_post [mk_row (Some 10) 1 ''T1'', mk_row (Some 10) 2 ''T1''] = map make_post group \<and>
      (\<forall>ts. filter (\<lambda>r. timestamp r = ts) group
            = filter (\<lambda>r. thread_id r = Some t \<and> timestamp r = ts) tied_rows))"
proof -
  have m: "(''10'', map make_post [mk_row (Some 10) 1 ''T1'', mk_row (Some 10) 2 ''T1''])
      \<in> set (convert_threads tied_rows)"
    by code_simp
  show ?thesis using m bspec[OF C3_sort_is_stable m] by simp
qed

text \<open>
  C9: rows whose \<open>thread_id\<close> is missing are silently left out. The dictionary returned for
  a table is the one returned for the table without those rows, and it holds at most as
  many posts as there are rows with a \<open>thread_id\<close>; \<open>convert_threads\<close> returns nothing but
  the dictionary, so no error or warning comes with it.
\<close>

theorem C9_missing_thread_id_dropped:
  "convert_threads df = convert_threads (filter (\<lambda>r. thread_id r \<noteq> None) df) \<and>
   total_posts (convert_threads df) \<le> length (filter (\<lambda>r. thread_id r \<noteq> None) df)"
  using convert_threads_drops_missing[of df] total_posts_bound[of df] by simp

section \<open>Properties of the annotated transformer\<close>

lemma isna_truth_raises: "isna_truth v = Inl e \<Longrightarrow> e = ValueError"
  by (induction v rule: isna_truth.induct) auto

lemma normalize_value_total: "normalize_value v = Inr (norm_value v)"
proof (cases "isna_truth v")
  case (Inl e)
  then show ?thesis
    using isna_truth_raises[OF Inl] by (simp add: normalize_value_def norm_value_def)
next
  case (Inr b)
  then show ?thesis by (simp add: normalize_value_def norm_value_def)
qed

lemma normalize_items_total: "normalize_items r = Inr (map (\<lambda>(k, v). (k, norm_value v)) r)"
  by (induction r) (auto simp: normalize_value_total)

lemma convert_rows_eq:
  "convert_rows jl idx rows records errs =
     Inr (records @ map (row_record jl) rows,
          errs @ concat (map (row_errors jl) (enumerate idx rows)))"
proof (induction rows arbitrary: idx records errs)
  case Nil
  then show ?case by simp
next
  case (Cons r rows)
  show ?case
  proof (cases "parse_cell jl r")
    case (Inl e)
    then show ?thesis
      by (simp add: normalize_items_total Cons.IH row_record_def row_errors_def)
  next
    case (Inr v)
    then show ?thesis
      by (simp add: normalize_items_total Cons.IH row_record_def row_errors_def)
  qed
qed

lemma convert_annotated_eq:
  "convert_annotated jl df =
     Inr (map (row_record jl) df, concat (map (row_errors jl) (enumerate 0 df)))"
  by (simp add: convert_annotated_def convert_rows_eq)

lemma map_of_norm:
  "map_of (map (\<lambda>(k, v). (k, norm_value v)) r) c = map_option norm_value (map_of r c)"
  by (induction r) auto

lemma row_record_other:
  "c \<noteq> ''vaccine_types'' \<Longrightarrow> map_of (row_record jl r) c = map_option norm_value (map_of r c)"
  by (simp add: row_record_def map_of_norm update_conv')

lemma row_record_vaccine_types:
  "map_of (row_record jl r) ''vaccine_types'' =
     Some (norm_value (case parse_cell jl r of Inr v \<Rightarrow> v | Inl e \<Rightarrow> PList []))"
  by (simp add: row_record_def map_of_norm update_conv')

lemma parse_errors_iff:
  "m \<in> set (concat (map (row_errors jl) (enumerate 0 df))) \<longleftrightarrow>
     (\<exists>i e. m = RowParseError i e \<and> i < length df \<and> parse_cell jl (df ! i) = Inl e)"
proof
  assume "m \<in> set (concat (map (row_errors jl) (enumerate 0 df)))"
  then obtain ir where ir: "ir \<in> set (enumerate 0 df)" and m: "m \<in> set (row_errors jl ir)"
    by auto
  from ir have "fst ir < length df" "df ! fst ir = snd ir" by (auto simp: in_set_enumerate_eq)
  then show "\<exists>i e. m = RowParseError i e \<and> i < length df \<and> parse_cell jl (df ! i) = Inl e"
    using m by (auto simp: row_errors_def split: sum.splits)
next
  assume "\<exists>i e. m = RowParseError i e \<and> i < length df \<and> parse_cell jl (df ! i) = Inl e"
  then obtain i e where m: "m = RowParseError i e" and i: "i < length df"
    and e: "parse_cell jl (df ! i) = Inl e" by blast
  have "(i, df ! i) \<in> set (enumerate 0 df)" using i by (simp add: in_set_enumerate_eq)
  moreover have "m \<in> set (row_errors jl (i, df ! i))" using m e by (simp add: row_errors_def)
  ultimately show "m \<in> set (concat (map (row_errors jl) (enumerate 0 df)))" by force
qed

subsection \<open>The claims about \<open>parse_vaccine_types\<close> and \<open>convert_annotated\<close>\<close>

text \<open>
  A cell that already holds a list of several elements does not reach \<open>return value\<close>:
  \<open>pd.isna\<close> answers a list element by element, the answer has no truth value, and the
  test of the first line raises \<open>ValueError\<close>.
\<close>

lemma list_cell_raises:
  "parse_vaccine_types jl (PList (x # y # zs)) = Inl ValueError"
  by (simp add: parse_vaccine_types_def)

text \<open>
  C4, as stated, fails: \<open>parse_vaccine_types\<close> catches \<open>JSONDecodeError\<close> only. On a
  cell that holds a document nested too deeply for the decoder, the decoder raises
  \<open>RecursionError\<close>, and so does \<open>parse_vaccine_types\<close>.
\<close>

theorem C4_nested_document_raises_counterexample:
  "parse_vaccine_types deep_loads (PStr nested_document) = Inl RecursionError"
proof -
  have "nested_document \<noteq> ''''" by (simp add: nested_document_def)
  then show ?thesis by (simp add: parse_vaccine_types_def deep_loads_def)
qed

text \<open>
  C4 (amended): on a string, \<open>parse_vaccine_types\<close> raises exactly what the JSON decoder
  raises other than \<open>JSONDecodeError\<close>: it returns for a missing cell, for the empty
  string and for every string on which the decoder returns or raises \<open>JSONDecodeError\<close>,
  and an exception of the decoder other than \<open>JSONDecodeError\<close> on a non-empty string
  passes through. A boolean, a number and a mapping are returned unchanged.
\<close>

theorem C4_parse_vaccine_types_returns:
  "parse_vaccine_types jl PNone = Inr (PList []) \<and>
   parse_vaccine_types jl PNaN = Inr (PList []) \<and>
   parse_vaccine_types jl (PStr '''') = Inr (PList []) \<and>
   ((\<exists>d. jl s = Inr d) \<or> jl s = Inl JSONDecodeError \<longrightarrow>
      (\<exists>r. parse_vaccine_types jl (PStr s) = Inr r)) \<and>
   (s \<noteq> '''' \<longrightarrow> jl s = Inl e \<longrightarrow> e \<noteq> JSONDecodeError \<longrightarrow>
      parse_vaccine_types jl (PStr s) = Inl e) \<and>
   parse_vaccine_types jl (PBool b) = Inr (PBool b) \<and>
   parse_vaccine_types jl (PInt i) = Inr (PInt i) \<and>
   parse_vaccine_types jl (PFloat q) = Inr (PFloat q) \<and>
   parse_vaccine_types jl (PDict d) = Inr (PDict d)"
proof (intro conjI impI)
  assume "(\<exists>d. jl s = Inr d) \<or> jl s = Inl JSONDecodeError"
  then show "\<exists>r. parse_vaccine_types jl (PStr s) = Inr r"
    by (cases "s = ''''") (auto simp: parse_vaccine_types_def)
next
  assume "s \<noteq> ''''" "jl s = Inl e" "e \<noteq> JSONDecodeError"
  then show "parse_vaccine_types jl (PStr s) = Inl e"
    by (simp add: parse_vaccine_types_def)
qed (simp_all add: parse_vaccine_types_def)

theorem C4_parse_vaccine_types_returns_witness:
  "(\<exists>r. parse_vaccine_types sample_loads (PStr ''not json'') = Inr r) \<and>
   (\<exists>r. parse_vaccine_types sample_loads (PStr ''[\"pfizer\"]'') = Inr r) \<and>
   parse_vaccine_types sample_loads (PDict [(''dose'', PInt 2)]) = Inr (PDict [(''dose'', PInt 2)])"
proof -
  have n: "sample_loads ''not json'' = Inl JSONDecodeError"
    and p: "\<exists>d. sample_loads ''[\"pfizer\"]'' = Inr d"
    by (simp_all add: sample_loads_def)
  have a: "\<exists>r. parse_vaccine_types sample_loads (PStr ''not json'') = Inr r"
    using C4_parse_vaccine_types_returns[of sample_loads "''not json''"] n by blast
  have b: "\<exists>r. parse_vaccine_types sample_loads (PStr ''[\"pfizer\"]'') = Inr r"
    using C4_parse_vaccine_types_returns[of sample_loads "''[\"pfizer\"]''"] p by blast
  have c: "parse_vaccine_types sample_loads (PDict [(''dose'', PInt 2)])
             = Inr (PDict [(''dose'', PInt 2)])"
    using C4_parse_vaccine_types_returns[of sample_loads _ _ _ _ _ "[(''dose'', PInt 2)]"]
    by blast
  show ?thesis using a b c by blast
qed

text \<open>
  C5: a missing cell (\<open>None\<close> or NaN) and the empty string yield \<open>[]\<close>; a string that
  the decoder decodes to an array yields exactly that array, so \<open>"[]"\<close> yields \<open>[]\<close>; a
  string on which the decoder raises \<open>JSONDecodeError\<close> yields the one-element array of
  the raw string, so \<open>"not json"\<close> yields \<open>["not json"]\<close>.
\<close>

theorem C5_parse_vaccine_types_cases:
  "parse_vaccine_types jl PNone = Inr (PList []) \<and>
   parse_vaccine_types jl PNaN = Inr (PList []) \<and>
   parse_vaccine_types jl (PStr '''') = Inr (PList []) \<and>
   (\<forall>s xs. s \<noteq> '''' \<longrightarrow> jl s = Inr (PList xs) \<longrightarrow>
        parse_vaccine_types jl (PStr s) = Inr (PList xs)) \<and>
   (\<forall>s. s \<noteq> '''' \<longrightarrow> jl s = Inl JSONDecodeError \<longrightarrow>
        parse_vaccine_types jl (PStr s) = Inr (PList [PStr s])) \<and>
   (jl ''[]'' = Inr (PList []) \<longrightarrow> parse_vaccine_types jl (PStr ''[]'') = Inr (PList [])) \<and>
   (jl ''not json'' = Inl JSONDecodeError \<longrightarrow>
        parse_vaccine_types jl (PStr ''not json'') = Inr (PList [PStr ''not json'']))"
  by (simp add: parse_vaccine_types_def)

theorem C5_parse_vaccine_types_cases_witness:
  "parse_vaccine_types sample_loads (PStr ''[\"pfizer\"]'') = Inr (PList [PStr ''pfizer'']) \<and>
   parse_vaccine_types sample_loads (PStr ''[]'') = Inr (PList []) \<and>
   parse_vaccine_types sample_loads (PStr ''not json'') = Inr (PList [PStr ''not json''])"
proof -
  have a: "sample_loads ''[\"pfizer\"]'' = Inr (PList [PStr ''pfizer''])"
    and b: "sample_loads ''[]'' = Inr (PList [])"
    and c: "sample_loads ''not json'' = Inl JSONDecodeError"
    by (simp_all add: sample_loads_def)
  have ne: "''[\"pfizer\"]'' \<noteq> ''''" by simp
  show ?thesis using C5_parse_vaccine_types_cases[of sample_loads] a b c ne by blast
qed

text \<open>
  C6: \<open>convert_annotated\<close> always returns, with exactly one record per input row, in the
  order of the input: record \<open>i\<close> holds, under every column of row \<open>i\<close> other than
  \<open>vaccine_types\<close>, the value of that row (a missing value as \<open>None\<close>), and under
  \<open>vaccine_types\<close> the parsed value. When the parse of row \<open>i\<close> raises, record \<open>i\<close> gets
  \<open>[]\<close> under \<open>vaccine_types\<close> and the error list gets a message with the row index and
  the exception; the error list holds no other message.
\<close>

theorem C6_convert_annotated_rows:
  "\<exists>records errs. convert_annotated jl df = Inr (records, errs) \<and> length records = length df \<and>
     (\<forall>i<length df. \<forall>c v. c \<noteq> ''vaccine_types'' \<longrightarrow> map_of (df ! i) c = Some v \<longrightarrow>
         map_of (records ! i) c = Some (if isna_truth v = Inr True then PNone else v)) \<and>
     (\<forall>i<length df. \<forall>v. parse_cell jl (df ! i) = Inr v \<longrightarrow>
         map_of (records ! i) ''vaccine_types''
           = Some (if isna_truth v = Inr True then PNone else v)) \<and>
     (\<forall>i<length df. \<forall>e. parse_cell jl (df ! i) = Inl e \<longrightarrow>
         map_of (records ! i) ''vaccine_types'' = Some (PList []) \<and>
         RowParseError i e \<in> set errs) \<and>
     (\<forall>m. m \<in> set errs \<longrightarrow>
         (\<exists>i e. m = RowParseError i e \<and> i < length df \<and> parse_cell jl (df ! i) = Inl e))"
proof (intro exI conjI)
  show "convert_annotated jl df
      = Inr (map (row_record jl) df, concat (map (row_errors jl) (enumerate 0 df)))"
    by (rule convert_annotated_eq)
  show "length (map (row_record jl) df) = length df" by simp
  show "\<forall>i<length df. \<forall>c v. c \<noteq> ''vaccine_types'' \<longrightarrow> map_of (df ! i) c = Some v \<longrightarrow>
         map_of (map (row_record jl) df ! i) c
           = Some (if isna_truth v = Inr True then PNone else v)"
    by (simp add: row_record_other norm_value_def)
  show "\<forall>i<length df. \<forall>v. parse_cell jl (df ! i) = Inr v \<longrightarrow>
         map_of (map (row_record jl) df ! i) ''vaccine_types''
           = Some (if isna_truth v = Inr True then PNone else v)"
    by (simp add: row_record_vaccine_types norm_value_def)
  show "\<forall>i<length df. \<forall>e. parse_cell jl (df ! i) = Inl e \<longrightarrow>
         map_of (map (row_record jl) df ! i) ''vaccine_types'' = Some (PList []) \<and>
         RowParseError i e \<in> set (concat (map (row_errors jl) (enumerate 0 df)))"
  proof (intro allI impI)
    fix i e assume i: "i < length df" and e: "parse_cell jl (df ! i) = Inl e"
    have "map_of (map (row_record jl) df ! i) ''vaccine_types'' = Some (PList [])"
      using i e by (simp add: row_record_vaccine_types norm_value_def)
    moreover have "RowParseError i e \<in> set (concat (map (row_errors jl) (enumerate 0 df)))"
      unfolding parse_errors_iff using i e by blast
    ultimately show "map_of (map (row_record jl) df ! i) ''vaccine_types'' = Some (PList []) \<and>
         RowParseError i e \<in> set (concat (map (row_errors jl) (enumerate 0 df)))" by simp
  qed
  show "\<forall>m. m \<in> set (concat (map (row_errors jl) (enumerate 0 df))) \<longrightarrow>
      (\<exists>i e. m = RowParseError i e \<and> i < length df \<and> parse_cell jl (df ! i) = Inl e)"
    using parse_errors_iff by blast
qed

theorem C6_convert_annotated_rows_witness:
  "\<exists>records errs. convert_annotated sample_loads annotated_sample = Inr (records, errs) \<and>
     length records = 4 \<and>
     map_of (records ! 0) ''vaccine_types'' = Some (PList [PStr ''pfizer'']) \<and>
     map_of (records ! 2) ''thread_id'' = Some PNone \<and>
     map_of (records ! 3) ''vaccine_types'' = Some (PList []) \<and>
     RowParseError 3 ValueError \<in> set errs"
proof -
  obtain records errs where r: "convert_annotated sample_loads annotated_sample = Inr (records, errs)"
    and len: "length records = length annotated_sample"
    and other: "\<forall>i<length annotated_sample. \<forall>c v. c \<noteq> ''vaccine_types'' \<longrightarrow>
         map_of (annotated_sample ! i) c = Some v \<longrightarrow>
         map_of (records ! i) c = Some (if isna_truth v = Inr True then PNone else v)"
    and ok: "\<forall>i<length annotated_sample. \<forall>v. parse_cell sample_loads (annotated_sample ! i) = Inr v \<longrightarrow>
         map_of (records ! i) ''vaccine_types''
           = Some (if isna_truth v = Inr True then PNone else v)"
    and bad: "\<forall>i<length annotated_sample. \<forall>e. parse_cell sample_loads (annotated_sample ! i) = Inl e \<longrightarrow>
         map_of (records ! i) ''vaccine_types'' = Some (PList []) \<and>
         RowParseError i e \<in> set errs"
    using C6_convert_annotated_rows[of sample_loads annotated_sample] by blast
  have n: "length annotated_sample = 4" by (simp add: annotated_sample_def)
  have p0: "parse_cell sample_loads (annotated_sample ! 0) = Inr (PList [PStr ''pfizer''])"
    by (simp add: annotated_sample_def parse_cell_def getitem_def parse_vaccine_types_def
        sample_loads_def)
  have p3: "parse_cell sample_loads (annotated_sample ! 3) = Inl ValueError"
    by (simp add: annotated_sample_def parse_cell_def getitem_def parse_vaccine_types_def)
  have t2: "map_of (annotated_sample ! 2) ''thread_id'' = Some PNaN"
    by (simp add: annotated_sample_def)
  have "map_of (records ! 0) ''vaccine_types'' = Some (PList [PStr ''pfizer''])"
    using ok[rule_format, of 0, OF _ p0] n by simp
  moreover have "map_of (records ! 2) ''thread_id'' = Some PNone"
    using other[rule_format, of 2 "''thread_id''" PNaN] n t2 by simp
  moreover have "map_of (records ! 3) ''vaccine_types'' = Some (PList []) \<and>
      RowParseError 3 ValueError \<in> set errs"
    using bad[rule_format, of 3, OF _ p3] n by simp
  ultimately show ?thesis using r len n by simp
qed

section \<open>Properties of the encryption, the validation and the pipeline\<close>

lemma unat_byte: "n < 256 \<Longrightarrow> unat (of_nat n :: byte) = n"
  by (simp add: unat_of_nat)

lemma unat_byte_less: "unat (b :: byte) < 256"
  using unsigned_less[of b, where 'a = nat] by simp

lemma byte_of_unat: "(of_nat (unat b) :: byte) = b"
  by simp

subsection \<open>Blocks\<close>

lemma chunks_Nil: "chunks n [] = []"
  by (simp add: chunks.simps)

lemma chunks_append: "length c = n \<Longrightarrow> 0 < n \<Longrightarrow> chunks n (c @ rest) = c # chunks n rest"
  by (subst chunks.simps) auto

lemma concat_chunks: "0 < n \<Longrightarrow> concat (chunks n xs) = xs"
proof (induction n xs rule: chunks.induct)
  case (1 n xs)
  show ?case
  proof (cases "xs = []")
    case True
    then show ?thesis by (simp add: chunks_Nil)
  next
    case False
    then have "chunks n xs = take n xs # chunks n (drop n xs)"
      using 1(2) by (subst chunks.simps) simp
    then show ?thesis using 1 False by simp
  qed
qed

lemma chunks_lengths: "0 < n \<Longrightarrow> length xs mod n = 0 \<Longrightarrow> \<forall>c\<in>set (chunks n xs). length c = n"
proof (induction n xs rule: chunks.induct)
  case (1 n xs)
  show ?case
  proof (cases "xs = []")
    case True
    then show ?thesis by (simp add: chunks_Nil)
  next
    case False
    have eq: "chunks n xs = take n xs # chunks n (drop n xs)"
      using False 1(2) by (subst chunks.simps) simp
    have ge: "n \<le> length xs"
    proof (rule ccontr)
      assume "\<not> n \<le> length xs"
      then have "length xs mod n = length xs" by simp
      with 1(3) have "xs = []" by simp
      with False show False by simp
    qed
    have c0: "\<not> (n = 0 \<or> xs = [])" using False 1(2) by simp
    have "(length xs - n) mod n = length xs mod n" by (rule le_mod_geq[OF ge, symmetric])
    then have d0: "length (drop n xs) mod n = 0" using 1(3) by simp
    have ih: "\<forall>c\<in>set (chunks n (drop n xs)). length c = n" by (rule 1(1)[OF c0 1(2) d0])
    have "length (take n xs) = n" using ge by simp
    then show ?thesis unfolding eq using ih by simp
  qed
qed

lemma xor_bytes_length: "length (xor_bytes a b) = min (length a) (length b)"
  by (simp add: xor_bytes_def)

lemma xor_bytes_cancel: "length a = length b \<Longrightarrow> xor_bytes (xor_bytes a b) b = a"
proof (induction a b rule: list_induct2)
  case Nil
  then show ?case by (simp add: xor_bytes_def)
next
  case (Cons x xs y ys)
  then show ?case by (simp add: xor_bytes_def xor.assoc)
qed

lemma length_cbc_blocks:
  assumes len: "\<forall>b. length b = 16 \<longrightarrow> length (E k b) = 16"
  shows "length prev = 16 \<Longrightarrow> \<forall>b\<in>set blocks. length b = 16 \<Longrightarrow>
         length (cbc_blocks E k prev blocks) = length (concat blocks)"
proof (induction blocks arbitrary: prev)
  case Nil
  then show ?case by simp
next
  case (Cons b blocks)
  have c: "length (E k (xor_bytes b prev)) = 16"
    using len Cons.prems by (simp add: xor_bytes_length)
  then show ?case using Cons by (simp add: Let_def)
qed

lemma cbc_roundtrip:
  assumes inv: "\<forall>b. length b = 16 \<longrightarrow> length (E k b) = 16 \<and> D k (E k b) = b"
  shows "length prev = 16 \<Longrightarrow> \<forall>b\<in>set blocks. length b = 16 \<Longrightarrow>
         cbc_unblocks D k prev (chunks 16 (cbc_blocks E k prev blocks)) = concat blocks"
proof (induction blocks arbitrary: prev)
  case Nil
  then show ?case by (simp add: chunks_Nil)
next
  case (Cons b blocks)
  let ?c = "E k (xor_bytes b prev)"
  have x: "length (xor_bytes b prev) = 16" using Cons.prems by (simp add: xor_bytes_length)
  have c: "length ?c = 16" and d: "D k ?c = xor_bytes b prev" using inv x by auto
  have "chunks 16 (cbc_blocks E k prev (b # blocks)) = ?c # chunks 16 (cbc_blocks E k ?c blocks)"
    using c by (simp add: Let_def chunks_append)
  moreover have "cbc_unblocks D k ?c (chunks 16 (cbc_blocks E k ?c blocks)) = concat blocks"
    using Cons.IH[OF c] Cons.prems by simp
  moreover have "xor_bytes (D k ?c) prev = b"
    using d Cons.prems by (simp add: xor_bytes_cancel)
  ultimately show ?case by simp
qed

subsection \<open>Padding\<close>

lemma length_pad: "length (pad data 16) = 16 * (length data div 16 + 1)"
proof -
  have "length (pad data 16) = length data + (16 - length data mod 16)"
    by (simp add: pad_def Let_def)
  also have "\<dots> = 16 * (length data div 16 + 1)"
    by presburger
  finally show ?thesis .
qed

lemma unpad_pad: "unpad (pad data 16) 16 = Inr data"
proof -
  define p where "p = 16 - length data mod 16"
  define ps where "ps = pad data 16"
  have p: "1 \<le> p" "p \<le> 16" unfolding p_def by simp_all
  have pd: "ps = data @ replicate p (of_nat p)" by (simp add: ps_def pad_def p_def Let_def)
  have ne: "ps \<noteq> []" using p pd by auto
  have l: "last ps = of_nat p" using p pd by simp
  have u: "unat (last ps) = p" using p l by (simp add: unat_byte)
  have m: "length ps mod 16 = 0" unfolding ps_def by (simp add: length_pad)
  have len: "length ps - p = length data" by (simp add: pd)
  have le: "p \<le> length ps" by (simp add: pd)
  have d: "drop (length ps - p) ps = replicate p (last ps)" unfolding len l by (simp add: pd)
  have t: "take (length ps - p) ps = data" unfolding len by (simp add: pd)
  have "unpad ps 16 = Inr data"
    unfolding unpad_def Let_def u using ne m p le d t by simp
  then show ?thesis by (simp add: ps_def)
qed

subsection \<open>Base64\<close>

lemma b64_table: "list_all (\<lambda>i. b64_index (b64_char i) = i \<and> b64_char i \<noteq> CHR ''='') [0..<64]"
  by code_simp

lemma b64_index_char: "i < 64 \<Longrightarrow> b64_index (b64_char i) = i"
  using b64_table by (simp add: list_all_iff)

lemma b64_char_not_pad: "i < 64 \<Longrightarrow> b64_char i \<noteq> CHR ''=''"
  using b64_table by (simp add: list_all_iff)

lemma mod_base: "c < k \<Longrightarrow> (q * k + c) mod k = (c::nat)"
  by simp

lemma scale_divmod: "n div k * (k * j) + n mod k * j = n * (j::nat)"
proof -
  have "n * j = (n div k * k + n mod k) * j" by simp
  also have "\<dots> = n div k * k * j + n mod k * j" by (rule add_mult_distrib)
  also have "\<dots> = n div k * (k * j) + n mod k * j" by (simp only: mult.assoc)
  finally have e: "n * j = n div k * (k * j) + n mod k * j" .
  show ?thesis by (rule e[symmetric])
qed

lemma sextets2: "n div 64 * 64 + n mod 64 = (n::nat)"
  by simp

lemma sextets3: "(n div 4096 * 64 + n div 64 mod 64) * 64 + n mod 64 = (n::nat)"
proof -
  have "n div 4096 = n div 64 div 64" by (simp add: div_mult2_eq[symmetric])
  then have "n div 4096 * 64 + n div 64 mod 64 = n div 64" by simp
  then show ?thesis by simp
qed

lemma sextets4:
  "((n div 262144 * 64 + n div 4096 mod 64) * 64 + n div 64 mod 64) * 64 + n mod 64 = (n::nat)"
proof -
  have "n div 262144 = n div 4096 div 64" by (simp add: div_mult2_eq[symmetric])
  then have "n div 262144 * 64 + n div 4096 mod 64 = n div 4096" by simp
  then show ?thesis using sextets3[of n] by simp
qed

lemma b64_join4:
  "i0 < 64 \<Longrightarrow> i1 < 64 \<Longrightarrow> i2 < 64 \<Longrightarrow> i3 < 64 \<Longrightarrow>
   b64_join [b64_char i0, b64_char i1, b64_char i2, b64_char i3] = ((i0 * 64 + i1) * 64 + i2) * 64 + i3"
  by (simp add: b64_join_def b64_index_char)

lemma b64_join3:
  "i0 < 64 \<Longrightarrow> i1 < 64 \<Longrightarrow> i2 < 64 \<Longrightarrow>
   b64_join [b64_char i0, b64_char i1, b64_char i2] = (i0 * 64 + i1) * 64 + i2"
  by (simp add: b64_join_def b64_index_char)

lemma b64_join2:
  "i0 < 64 \<Longrightarrow> i1 < 64 \<Longrightarrow> b64_join [b64_char i0, b64_char i1] = i0 * 64 + i1"
  by (simp add: b64_join_def b64_index_char)

lemma b64_group3:
  fixes a b c :: byte
  defines "n \<equiv> unat a * 65536 + unat b * 256 + unat c"
  shows "b64decode ([b64_char (n div 262144), b64_char (n div 4096 mod 64),
                     b64_char (n div 64 mod 64), b64_char (n mod 64)] @ cs)
         = [a, b, c] @ b64decode cs"
proof -
  have la: "unat a < 256" and lb: "unat b < 256" and lc: "unat c < 256"
    by (rule unat_byte_less)+
  have n: "n < 16777216" unfolding n_def using la lb lc by linarith
  have i0: "n div 262144 < 64" using n by simp
  have "b64_join [b64_char (n div 262144), b64_char (n div 4096 mod 64),
                  b64_char (n div 64 mod 64), b64_char (n mod 64)]
      = ((n div 262144 * 64 + n div 4096 mod 64) * 64 + n div 64 mod 64) * 64 + n mod 64"
    by (rule b64_join4[OF i0]) simp_all
  then have j: "b64_join [b64_char (n div 262144), b64_char (n div 4096 mod 64),
                  b64_char (n div 64 mod 64), b64_char (n mod 64)] = n"
    by (simp only: sextets4)
  have np: "b64_char (n div 64 mod 64) \<noteq> CHR ''=''" "b64_char (n mod 64) \<noteq> CHR ''=''"
    by (simp_all add: b64_char_not_pad)
  have b0: "n div 65536 = unat a" unfolding n_def using lb lc by simp
  have "n div 256 = unat a * 256 + unat b" unfolding n_def using lc by simp
  then have b1: "n div 256 mod 256 = unat b" using lb by simp
  have e: "n = (unat a * 256 + unat b) * 256 + unat c" unfolding n_def by simp
  have b2: "n mod 256 = unat c" unfolding e by (rule mod_base[OF lc])
  show ?thesis
    by (simp add: j np Let_def b0 b1 b2)
qed

lemma b64_group2:
  fixes a b :: byte
  defines "n \<equiv> unat a * 256 + unat b"
  shows "b64decode [b64_char (n div 1024), b64_char (n div 16 mod 64), b64_char (n mod 16 * 4),
                    CHR ''=''] = [a, b]"
proof -
  have la: "unat a < 256" and lb: "unat b < 256" by (rule unat_byte_less)+
  have n: "n < 65536" unfolding n_def using la lb by linarith
  have i0: "n div 1024 < 64" using n by simp
  have i2: "n mod 16 * 4 < 64" by simp
  have np: "b64_char (n mod 16 * 4) \<noteq> CHR ''=''" using i2 by (rule b64_char_not_pad)
  have "n div 1024 = n div 16 div 64" by (simp add: div_mult2_eq[symmetric])
  then have h: "n div 1024 * 64 + n div 16 mod 64 = n div 16" by simp
  have "b64_join [b64_char (n div 1024), b64_char (n div 16 mod 64), b64_char (n mod 16 * 4)]
      = (n div 1024 * 64 + n div 16 mod 64) * 64 + n mod 16 * 4"
    by (rule b64_join3[OF i0 _ i2]) simp
  also have "\<dots> = n div 16 * 64 + n mod 16 * 4" by (simp only: h)
  also have "\<dots> = n * 4" using scale_divmod[of n 16 4] by simp
  finally have j: "b64_join [b64_char (n div 1024), b64_char (n div 16 mod 64),
      b64_char (n mod 16 * 4)] = n * 4" .
  have b0: "n div 256 = unat a" unfolding n_def using lb by simp
  have e: "n = unat a * 256 + unat b" unfolding n_def by simp
  have b1: "n mod 256 = unat b" unfolding e by (rule mod_base[OF lb])
  have d0: "n * 4 div 1024 = n div 256" by simp
  have d1: "n * 4 div 4 = n" by simp
  show ?thesis
    by (simp only: b64decode.simps np j Let_def d0 d1 b0 b1 if_False of_nat_unat) simp
qed

lemma b64_group1:
  fixes a :: byte
  defines "n \<equiv> unat a"
  shows "b64decode [b64_char (n div 4), b64_char (n mod 4 * 16), CHR ''='', CHR ''='']  = [a]"
proof -
  have la: "n < 256" unfolding n_def by (rule unat_byte_less)
  have i0: "n div 4 < 64" using la by simp
  have i1: "n mod 4 * 16 < 64" by simp
  have "b64_join [b64_char (n div 4), b64_char (n mod 4 * 16)] = n div 4 * 64 + n mod 4 * 16"
    by (rule b64_join2[OF i0 i1])
  also have "\<dots> = n * 16" using scale_divmod[of n 4 16] by simp
  finally have j: "b64_join [b64_char (n div 4), b64_char (n mod 4 * 16)] = n * 16" .
  have d: "n * 16 div 16 = n" by simp
  show ?thesis
    by (simp only: b64decode.simps j d if_True) (simp add: n_def)
qed

lemma b64decode_b64encode: "b64decode (b64encode bs) = bs"
proof (induction bs rule: b64encode.induct)
  case 1
  then show ?case by simp
next
  case (2 a)
  show ?case using b64_group1[of a] by (simp add: Let_def)
next
  case (3 a b)
  show ?case using b64_group2[of a b] by (simp add: Let_def)
next
  case (4 a b c rest)
  show ?case using b64_group3[of a b c "b64encode rest"] 4 by (simp add: Let_def)
qed

subsection \<open>UTF-8\<close>

lemma utf8_decode_1:
  "unat b0 < 0x80 \<Longrightarrow> utf8_decode (b0 # rest) = decoded (unat b0) (utf8_decode rest)"
  by (simp add: Let_def)

lemma utf8_decode_2:
  "0xC0 \<le> unat b0 \<Longrightarrow> unat b0 < 0xE0 \<Longrightarrow> is_cont b1 \<Longrightarrow>
   utf8_decode (b0 # b1 # rest) = decoded (utf8_join (unat b0 - 0xC0) [b1]) (utf8_decode rest)"
  by (simp add: Let_def)

lemma utf8_decode_3:
  "0xE0 \<le> unat b0 \<Longrightarrow> unat b0 < 0xF0 \<Longrightarrow> is_cont b1 \<Longrightarrow> is_cont b2 \<Longrightarrow>
   utf8_decode (b0 # b1 # b2 # rest)
     = decoded (utf8_join (unat b0 - 0xE0) [b1, b2]) (utf8_decode rest)"
  by (simp add: Let_def)

lemma utf8_decode_4:
  "0xF0 \<le> unat b0 \<Longrightarrow> unat b0 < 0xF8 \<Longrightarrow> is_cont b1 \<Longrightarrow> is_cont b2 \<Longrightarrow> is_cont b3 \<Longrightarrow>
   utf8_decode (b0 # b1 # b2 # b3 # rest)
     = decoded (utf8_join (unat b0 - 0xF0) [b1, b2, b3]) (utf8_decode rest)"
  by (simp add: Let_def)

lemma unat_cont_byte: "x < 64 \<Longrightarrow> unat (of_nat (0x80 + x) :: byte) = 0x80 + x"
  by (rule unat_byte) simp

lemma is_cont_byte: "x < 64 \<Longrightarrow> is_cont (of_nat (0x80 + x))"
  unfolding is_cont_def by (simp only: unat_cont_byte, simp?)

lemma cont_byte: "x < 64 \<Longrightarrow> cont (of_nat (0x80 + x)) = x"
  unfolding cont_def by (simp only: unat_cont_byte, simp?)

lemma utf8_join_1: "x1 < 64 \<Longrightarrow> utf8_join v [of_nat (0x80 + x1)] = v * 64 + x1"
  unfolding utf8_join_def by (simp only: foldl.simps cont_byte)

lemma utf8_join_2:
  "x1 < 64 \<Longrightarrow> x2 < 64 \<Longrightarrow>
   utf8_join v [of_nat (0x80 + x1), of_nat (0x80 + x2)] = (v * 64 + x1) * 64 + x2"
  unfolding utf8_join_def by (simp only: foldl.simps cont_byte)

lemma utf8_join_3:
  "x1 < 64 \<Longrightarrow> x2 < 64 \<Longrightarrow> x3 < 64 \<Longrightarrow>
   utf8_join v [of_nat (0x80 + x1), of_nat (0x80 + x2), of_nat (0x80 + x3)]
     = ((v * 64 + x1) * 64 + x2) * 64 + x3"
  unfolding utf8_join_def by (simp only: foldl.simps cont_byte)

lemma utf8_char_roundtrip:
  assumes "utf8_encode_char cp = Inr bs"
  shows "utf8_decode (bs @ rest) = decoded cp (utf8_decode rest)"
proof -
  consider (one) "cp < 0x80" | (two) "0x80 \<le> cp" "cp < 0x800"
    | (three) "0x800 \<le> cp" "cp < 0x10000" | (four) "0x10000 \<le> cp" "cp < 0x110000"
    | (big) "0x110000 \<le> cp"
    by linarith
  then show ?thesis
  proof cases
    case one
    define B0 :: byte where "B0 = of_nat cp"
    have bs: "bs = [B0]" using assms one by (simp add: utf8_encode_char_def B0_def)
    have u: "unat B0 = cp" unfolding B0_def by (rule unat_byte) (use one in simp)
    have r: "utf8_decode (B0 # rest) = decoded cp (utf8_decode rest)"
      using utf8_decode_1[of B0 rest] one by (simp only: u, simp?)
    show ?thesis unfolding bs append_Cons append_Nil by (rule r)
  next
    case two
    define B0 :: byte where "B0 = of_nat (0xC0 + cp div 64)"
    define B1 :: byte where "B1 = of_nat (0x80 + cp mod 64)"
    have bs: "bs = [B0, B1]"
      using assms two by (simp add: utf8_encode_char_def B0_def B1_def)
    have d: "cp div 64 < 32" using two by simp
    have u: "unat B0 = 0xC0 + cp div 64" unfolding B0_def by (rule unat_byte) (use d in simp)
    have c: "is_cont B1" unfolding B1_def by (rule is_cont_byte) simp
    have j: "utf8_join (cp div 64) [B1] = cp div 64 * 64 + cp mod 64"
      unfolding B1_def by (rule utf8_join_1) simp
    have "utf8_decode (B0 # B1 # rest) = decoded (utf8_join (unat B0 - 0xC0) [B1]) (utf8_decode rest)"
      by (rule utf8_decode_2, unfold u, use d c in simp_all)
    also have "\<dots> = decoded cp (utf8_decode rest)"
      by (simp only: u diff_add_inverse j sextets2)
    finally have r: "utf8_decode (B0 # B1 # rest) = decoded cp (utf8_decode rest)" .
    show ?thesis unfolding bs append_Cons append_Nil by (rule r)
  next
    case three
    then have ns: "\<not> (0xD800 \<le> cp \<and> cp < 0xE000)"
      using assms by (auto simp: utf8_encode_char_def split: if_splits)
    define B0 :: byte where "B0 = of_nat (0xE0 + cp div 4096)"
    define B1 :: byte where "B1 = of_nat (0x80 + cp div 64 mod 64)"
    define B2 :: byte where "B2 = of_nat (0x80 + cp mod 64)"
    have bs: "bs = [B0, B1, B2]"
      using assms three ns by (simp add: utf8_encode_char_def B0_def B1_def B2_def)
    have d: "cp div 4096 < 16" using three by simp
    have u: "unat B0 = 0xE0 + cp div 4096" unfolding B0_def by (rule unat_byte) (use d in simp)
    have c1: "is_cont B1" unfolding B1_def by (rule is_cont_byte) simp
    have c2: "is_cont B2" unfolding B2_def by (rule is_cont_byte) simp
    have j: "utf8_join (cp div 4096) [B1, B2] = (cp div 4096 * 64 + cp div 64 mod 64) * 64 + cp mod 64"
      unfolding B1_def B2_def by (rule utf8_join_2) simp_all
    have "utf8_decode (B0 # B1 # B2 # rest)
        = decoded (utf8_join (unat B0 - 0xE0) [B1, B2]) (utf8_decode rest)"
      by (rule utf8_decode_3, unfold u, use d c1 c2 in simp_all)
    also have "\<dots> = decoded cp (utf8_decode rest)"
      by (simp only: u diff_add_inverse j sextets3)
    finally have r: "utf8_decode (B0 # B1 # B2 # rest) = decoded cp (utf8_decode rest)" .
    show ?thesis unfolding bs append_Cons append_Nil by (rule r)
  next
    case four
    define B0 :: byte where "B0 = of_nat (0xF0 + cp div 262144)"
    define B1 :: byte where "B1 = of_nat (0x80 + cp div 4096 mod 64)"
    define B2 :: byte where "B2 = of_nat (0x80 + cp div 64 mod 64)"
    define B3 :: byte where "B3 = of_nat (0x80 + cp mod 64)"
    have bs: "bs = [B0, B1, B2, B3]"
      using assms four by (simp add: utf8_encode_char_def B0_def B1_def B2_def B3_def)
    have d: "cp div 262144 < 5" using four by simp
    have u: "unat B0 = 0xF0 + cp div 262144" unfolding B0_def by (rule unat_byte) (use d in simp)
    have c1: "is_cont B1" unfolding B1_def by (rule is_cont_byte) simp
    have c2: "is_cont B2" unfolding B2_def by (rule is_cont_byte) simp
    have c3: "is_cont B3" unfolding B3_def by (rule is_cont_byte) simp
    have j: "utf8_join (cp div 262144) [B1, B2, B3]
        = ((cp div 262144 * 64 + cp div 4096 mod 64) * 64 + cp div 64 mod 64) * 64 + cp mod 64"
      unfolding B1_def B2_def B3_def by (rule utf8_join_3) simp_all
    have "utf8_decode (B0 # B1 # B2 # B3 # rest)
        = decoded (utf8_join (unat B0 - 0xF0) [B1, B2, B3]) (utf8_decode rest)"
      by (rule utf8_decode_4, unfold u, use d c1 c2 c3 in simp_all)
    also have "\<dots> = decoded cp (utf8_decode rest)"
      by (simp only: u diff_add_inverse j sextets4)
    finally have r: "utf8_decode (B0 # B1 # B2 # B3 # rest) = decoded cp (utf8_decode rest)" .
    show ?thesis unfolding bs append_Cons append_Nil by (rule r)
  next
    case big
    then show ?thesis using assms by (simp add: utf8_encode_char_def)
  qed
qed

lemma utf8_roundtrip: "utf8_encode s = Inr bs \<Longrightarrow> utf8_decode bs = Inr s"
proof (induction s arbitrary: bs)
  case Nil
  then show ?case by simp
next
  case (Cons cp cps)
  from Cons.prems obtain cb rest where cb: "utf8_encode_char cp = Inr cb"
    and rest: "utf8_encode cps = Inr rest" and bs: "bs = cb @ rest"
    by (auto split: sum.splits)
  have "utf8_decode rest = Inr cps" using Cons.IH[OF rest] .
  then show ?case unfolding bs utf8_char_roundtrip[OF cb] by (simp add: decoded_def)
qed

subsection \<open>Encryption and decryption\<close>

lemma utf8_encode_char_scalar: "is_scalar_value cp \<Longrightarrow> \<exists>bs. utf8_encode_char cp = Inr bs"
  by (simp add: is_scalar_value_def utf8_encode_char_def)

lemma utf8_encode_scalar: "list_all is_scalar_value s \<Longrightarrow> \<exists>bs. utf8_encode s = Inr bs"
proof (induction s)
  case Nil
  then show ?case by simp
next
  case (Cons cp cps)
  then obtain bs rest where "utf8_encode_char cp = Inr bs" "utf8_encode cps = Inr rest"
    using utf8_encode_char_scalar[of cp] by auto
  then show ?case by simp
qed

lemma next_multiple: "(n::nat) < 16 * (n div 16 + 1) \<and> 16 * (n div 16 + 1) \<le> n + 16"
  by presburger

lemma length_random: "length (fst (get_random_bytes n rng)) = n"
  by (simp add: get_random_bytes_def)

lemma encrypt_data_returns:
  assumes pw: "latin1_encode password = Inr pw" and d: "utf8_encode data_str = Inr data"
    and s: "get_random_bytes 16 rng = (salt, rng1)" and i: "get_random_bytes 16 rng1 = (iv, rng2)"
  shows "encrypt_data derive aes rng data_str password =
    (Inr (b64encode (cbc_blocks aes (derive pw salt 32 100000) iv (chunks 16 (pad data 16))),
          b64encode salt, b64encode iv), rng2)"
proof -
  have iv: "length iv = 16" using length_random[of 16 rng1] i by simp
  have m: "length (pad data 16) mod 16 = 0" by (simp add: length_pad)
  show ?thesis
    by (simp add: encrypt_data_def s i PBKDF2_def pw AES_new_def iv d cipher_encrypt_def m)
qed

lemma encrypt_data_result:
  assumes "fst (encrypt_data derive aes rng data_str password) = Inr (C, S, V)"
  shows "\<exists>pw data. latin1_encode password = Inr pw \<and> utf8_encode data_str = Inr data \<and>
     C = b64encode (cbc_blocks aes (derive pw (fst (get_random_bytes 16 rng)) 32 100000)
            (fst (get_random_bytes 16 (snd (get_random_bytes 16 rng)))) (chunks 16 (pad data 16)))"
  using assms
  by (auto simp: encrypt_data_def PBKDF2_def AES_new_def cipher_encrypt_def case_prod_unfold Let_def
      split: sum.splits if_splits)

lemma length_ciphertext:
  assumes len: "\<forall>k b. length b = 16 \<longrightarrow> length (aes k b) = 16" and iv: "length iv = 16"
  shows "length (cbc_blocks aes key iv (chunks 16 (pad data 16))) = 16 * (length data div 16 + 1)"
proof -
  have m: "length (pad data 16) mod 16 = 0" by (simp add: length_pad)
  have b: "\<forall>b\<in>set (chunks 16 (pad data 16)). length b = 16"
    by (rule chunks_lengths) (use m in simp_all)
  have "length (cbc_blocks aes key iv (chunks 16 (pad data 16)))
      = length (concat (chunks 16 (pad data 16)))"
    by (rule length_cbc_blocks[OF _ iv b]) (use len in simp)
  also have "\<dots> = length (pad data 16)" by (simp add: concat_chunks)
  finally show ?thesis by (simp add: length_pad)
qed

text \<open>
  C10: whenever \<open>encrypt_data\<close> returns a ciphertext, its base64 decoding has
  \<open>16 * (n div 16 + 1)\<close> bytes, where \<open>n\<close> is the number of bytes of the UTF-8 encoding of
  the plaintext: a multiple of 16, greater than \<open>n\<close> and at most \<open>n + 16\<close>, hence the
  smallest multiple of 16 strictly greater than \<open>n\<close>, and never empty. It does return one
  for every encodable plaintext and password. The block function is assumed to map
  16-byte blocks to 16-byte blocks.
\<close>
theorem C10_ciphertext_length:
  assumes len: "\<forall>k b. length b = 16 \<longrightarrow> length (aes k b) = 16"
  shows "(list_all (\<lambda>cp. cp < 256) password \<and> list_all is_scalar_value data_str \<longrightarrow>
            (\<exists>C S V. fst (encrypt_data derive aes rng data_str password) = Inr (C, S, V))) \<and>
         (\<forall>C S V. fst (encrypt_data derive aes rng data_str password) = Inr (C, S, V) \<longrightarrow>
            (\<exists>data. utf8_encode data_str = Inr data \<and>
               length (b64decode C) = 16 * (length data div 16 + 1) \<and>
               16 dvd length (b64decode C) \<and> length data < length (b64decode C) \<and>
               length (b64decode C) \<le> length data + 16 \<and> b64decode C \<noteq> []))"
proof (intro conjI allI impI)
  assume "list_all (\<lambda>cp. cp < 256) password \<and> list_all is_scalar_value data_str"
  then obtain data where pw: "latin1_encode password = Inr (map of_nat password)"
    and d: "utf8_encode data_str = Inr data"
    using utf8_encode_scalar[of data_str] by (auto simp: latin1_encode_def)
  obtain salt rng1 where s: "get_random_bytes 16 rng = (salt, rng1)"
    by (cases "get_random_bytes 16 rng")
  obtain iv rng2 where i: "get_random_bytes 16 rng1 = (iv, rng2)"
    by (cases "get_random_bytes 16 rng1")
  show "\<exists>C S V. fst (encrypt_data derive aes rng data_str password) = Inr (C, S, V)"
    using encrypt_data_returns[OF pw d s i, of derive aes] by simp
next
  fix C S V assume r: "fst (encrypt_data derive aes rng data_str password) = Inr (C, S, V)"
  from encrypt_data_result[OF r] obtain pw data where d: "utf8_encode data_str = Inr data"
    and C: "C = b64encode (cbc_blocks aes (derive pw (fst (get_random_bytes 16 rng)) 32 100000)
            (fst (get_random_bytes 16 (snd (get_random_bytes 16 rng)))) (chunks 16 (pad data 16)))"
    by blast
  have l: "length (b64decode C) = 16 * (length data div 16 + 1)"
    unfolding C b64decode_b64encode by (rule length_ciphertext[OF len length_random])
  have "16 dvd length (b64decode C)" unfolding l by simp
  moreover have "length data < length (b64decode C)" unfolding l
    using next_multiple[of "length data"] by blast
  moreover have "length (b64decode C) \<le> length data + 16" unfolding l
    using next_multiple[of "length data"] by blast
  moreover have "b64decode C \<noteq> []" using l by auto
  ultimately show "\<exists>data. utf8_encode data_str = Inr data \<and>
               length (b64decode C) = 16 * (length data div 16 + 1) \<and>
               16 dvd length (b64decode C) \<and> length data < length (b64decode C) \<and>
               length (b64decode C) \<le> length data + 16 \<and> b64decode C \<noteq> []"
    using d l by blast
qed

text \<open>
  C8: the result of \<open>encrypt_data\<close> depends on the randomness only through the salt and
  the initialization vector. Two runs on the same plaintext and password whose random
  sources deliver the same salt and the same vector return the same result, ciphertext
  included.
\<close>
theorem C8_same_salt_and_iv_same_ciphertext:
  assumes "fst (get_random_bytes 16 rng) = fst (get_random_bytes 16 rng')"
    and "fst (get_random_bytes 16 (snd (get_random_bytes 16 rng)))
       = fst (get_random_bytes 16 (snd (get_random_bytes 16 rng')))"
  shows "fst (encrypt_data derive aes rng data_str password)
       = fst (encrypt_data derive aes rng' data_str password)"
  by (simp only: encrypt_data_def case_prod_unfold Let_def fst_conv assms)

lemma decrypt_encrypted:
  assumes inv: "\<forall>k b. length b = 16 \<longrightarrow> length (aes k b) = 16 \<and> aes_inv k (aes k b) = b"
    and pw: "latin1_encode password = Inr pw" and d: "utf8_encode data_str = Inr data"
    and iv: "length iv = 16"
  shows "decrypt_data derive aes_inv
     (b64encode (cbc_blocks aes (derive pw salt 32 100000) iv (chunks 16 (pad data 16))),
      b64encode salt, b64encode iv) password = Inr data_str"
proof -
  let ?key = "derive pw salt 32 100000"
  let ?ct = "cbc_blocks aes ?key iv (chunks 16 (pad data 16))"
  have len: "\<forall>k b. length b = 16 \<longrightarrow> length (aes k b) = 16" using inv by simp
  have m: "length (pad data 16) mod 16 = 0" by (simp add: length_pad)
  have b: "\<forall>b\<in>set (chunks 16 (pad data 16)). length b = 16"
    by (rule chunks_lengths) (use m in simp_all)
  have lc: "length ?ct mod 16 = 0" by (simp add: length_ciphertext[OF len iv])
  have "cbc_unblocks aes_inv ?key iv (chunks 16 ?ct) = concat (chunks 16 (pad data 16))"
    by (rule cbc_roundtrip[OF _ iv b]) (use inv in simp)
  then have pl: "cbc_decrypt aes_inv ?key iv ?ct = Inr (pad data 16)"
    by (simp add: cbc_decrypt_def iv lc concat_chunks)
  show ?thesis
    by (simp add: decrypt_data_def b64decode_b64encode PBKDF2_def pw pl unpad_pad
        utf8_roundtrip[OF d])
qed

text \<open>
  C1 (amended): for every plaintext made of Unicode scalar values (the empty string and
  characters of several bytes included) and every password whose characters are all
  below code point 256, \<open>encrypt_data\<close> returns three base64 texts, and decoding them,
  deriving the key from the password and the salt with the same derivation at 100000
  iterations, decrypting in CBC mode and removing the PKCS7 padding gives back the
  plaintext. The block function is assumed to map 16-byte blocks to 16-byte blocks and
  to be undone by its inverse, as AES is.
\<close>
theorem C1_decryption_round_trip:
  assumes inv: "\<forall>k b. length b = 16 \<longrightarrow> length (aes k b) = 16 \<and> aes_inv k (aes k b) = b"
    and pw: "list_all (\<lambda>cp. cp < 256) password"
    and p: "list_all is_scalar_value data_str"
  shows "\<exists>C S V. fst (encrypt_data derive aes rng data_str password) = Inr (C, S, V) \<and>
     decrypt_data derive aes_inv (C, S, V) password = Inr data_str"
proof -
  obtain data where d: "utf8_encode data_str = Inr data" using utf8_encode_scalar[OF p] by blast
  have l: "latin1_encode password = Inr (map of_nat password)" using pw by (simp add: latin1_encode_def)
  obtain salt rng1 where s: "get_random_bytes 16 rng = (salt, rng1)" by (cases "get_random_bytes 16 rng")
  obtain iv rng2 where i: "get_random_bytes 16 rng1 = (iv, rng2)" by (cases "get_random_bytes 16 rng1")
  have iv: "length iv = 16" using length_random[of 16 rng1] i by simp
  have e: "fst (encrypt_data derive aes rng data_str password)
    = Inr (b64encode (cbc_blocks aes (derive (map of_nat password) salt 32 100000) iv
             (chunks 16 (pad data 16))), b64encode salt, b64encode iv)"
    using encrypt_data_returns[OF l d s i, of derive aes] by simp
  show ?thesis
    using e decrypt_encrypted[OF inv l d iv, of derive salt] by blast
qed

subsection \<open>The stand-in cipher\<close>

lemma toy_aes_block:
  "\<forall>k b. length b = 16 \<longrightarrow> length (toy_aes k b) = 16 \<and> toy_aes k (toy_aes k b) = b"
proof (intro allI impI)
  fix k b :: "byte list" assume b: "length b = 16"
  have r: "length (take 16 (k @ replicate 16 0)) = 16" by simp
  have "length b = length (take 16 (k @ replicate 16 0))" using b r by simp
  then have "xor_bytes (xor_bytes b (take 16 (k @ replicate 16 0))) (take 16 (k @ replicate 16 0)) = b"
    by (rule xor_bytes_cancel)
  then show "length (toy_aes k b) = 16 \<and> toy_aes k (toy_aes k b) = b"
    unfolding toy_aes_def using b r by (simp add: xor_bytes_length)
qed

text \<open>
  C1, as stated, fails: for the eight-character password of \<open>cyrillic_password\<close>, whose
  letters lie above code point 255, the key derivation raises \<open>UnicodeEncodeError\<close> and
  \<open>encrypt_data\<close> returns no ciphertext, whatever the plaintext.
\<close>
theorem C1_non_latin1_password_counterexample:
  "fst (encrypt_data toy_derive toy_aes sample_rng sample_text
          cyrillic_password) = Inl UnicodeEncodeError"
  by (simp add: encrypt_data_def get_random_bytes_def PBKDF2_def latin1_encode_def
      cyrillic_password_def)

theorem C1_decryption_round_trip_witness:
  "(\<exists>C S V. fst (encrypt_data toy_derive toy_aes sample_rng sample_text sample_password) = Inr (C, S, V) \<and>
      decrypt_data toy_derive toy_aes (C, S, V) sample_password = Inr sample_text) \<and>
   (\<exists>C S V. fst (encrypt_data toy_derive toy_aes sample_rng [] sample_password) = Inr (C, S, V) \<and>
      decrypt_data toy_derive toy_aes (C, S, V) sample_password = Inr [])"
proof -
  have pw: "list_all (\<lambda>cp. cp < 256) sample_password" by (simp add: sample_password_def)
  have p: "list_all is_scalar_value sample_text" by (simp add: sample_text_def is_scalar_value_def)
  have e: "list_all is_scalar_value []" by simp
  show ?thesis using C1_decryption_round_trip[OF toy_aes_block pw p] C1_decryption_round_trip[OF toy_aes_block pw e] by blast
qed

theorem C8_same_salt_and_iv_same_ciphertext_witness:
  "fst (encrypt_data toy_derive toy_aes sample_rng sample_text sample_password)
     = fst (encrypt_data toy_derive toy_aes other_rng sample_text sample_password)"
proof -
  have s: "fst (get_random_bytes 16 sample_rng) = fst (get_random_bytes 16 other_rng)"
    by (simp add: get_random_bytes_def sample_rng_def other_rng_def)
  have i: "fst (get_random_bytes 16 (snd (get_random_bytes 16 sample_rng)))
       = fst (get_random_bytes 16 (snd (get_random_bytes 16 other_rng)))"
    by (simp add: get_random_bytes_def sample_rng_def other_rng_def)
  show ?thesis by (rule C8_same_salt_and_iv_same_ciphertext[OF s i])
qed

theorem C10_ciphertext_length_witness:
  "\<exists>C S V. fst (encrypt_data toy_derive toy_aes sample_rng [] sample_password) = Inr (C, S, V) \<and>
      length (b64decode C) = 16"
proof -
  have len: "\<forall>k b. length b = 16 \<longrightarrow> length (toy_aes k b) = 16" using toy_aes_block by blast
  have h: "list_all (\<lambda>cp. cp < 256) sample_password \<and> list_all is_scalar_value []"
    by (simp add: sample_password_def)
  from C10_ciphertext_length[OF len, of sample_password "[]" toy_derive sample_rng] h
  obtain C S V where r: "fst (encrypt_data toy_derive toy_aes sample_rng [] sample_password) = Inr (C, S, V)"
    by blast
  from C10_ciphertext_length[OF len, of sample_password "[]" toy_derive sample_rng] r
  obtain data where "utf8_encode [] = Inr data" "length (b64decode C) = 16 * (length data div 16 + 1)"
    by blast
  then have "length (b64decode C) = 16" by simp
  then show ?thesis using r by blast
qed

subsection \<open>Validation and the pipeline\<close>

lemma collect_Inr_iff: "collect f xs = Inr ys \<longleftrightarrow> map f xs = map Inr ys"
proof (induction xs arbitrary: ys)
  case Nil
  show ?case by auto
next
  case (Cons x xs)
  show ?case
  proof (cases ys)
    case Nil
    then show ?thesis by (auto split: sum.splits)
  next
    case (Cons y ys')
    then show ?thesis using Cons.IH[of ys'] by (auto split: sum.splits)
  qed
qed

lemma missing_filter_empty:
  "filter (\<lambda>k. k \<notin> set tids) (remdups ids) = [] \<longleftrightarrow> set ids \<subseteq> set tids"
  by (auto simp: filter_empty_conv)

lemma missing_filter_length:
  "length (filter (\<lambda>k. k \<notin> set tids) (remdups ids)) = card (set ids - set tids)"
proof -
  have "distinct (filter (\<lambda>k. k \<notin> set tids) (remdups ids))" by simp
  then have "length (filter (\<lambda>k. k \<notin> set tids) (remdups ids))
               = card (set (filter (\<lambda>k. k \<notin> set tids) (remdups ids)))"
    by (rule distinct_card[symmetric])
  also have "set (filter (\<lambda>k. k \<notin> set tids) (remdups ids)) = set ids - set tids" by auto
  finally show ?thesis .
qed

lemma empty_filter_pos:
  "0 < length (filter (\<lambda>v. \<not> py_truthy v) cells) \<longleftrightarrow> \<not> list_all py_truthy cells"
  by (auto simp: filter_empty_conv list_all_iff)

lemma validate_data_eq:
  assumes "collect record_thread_id (enumerate 0 recs) = Inr ids"
    and "collect key_thread_id (map fst threads) = Inr tids"
    and "collect (\<lambda>r. getitem r ''vaccine_types'') recs = Inr cells"
  shows "validate_data recs threads adf tdf =
           Inr ((if length recs \<noteq> length adf
                 then [AnnotatedCountMismatch (length recs) (length adf)] else [])
                @ (if total_posts threads \<noteq> length tdf
                   then [ThreadsPostCountMismatch (total_posts threads) (length tdf)] else []),
                (if set ids \<subseteq> set tids then []
                 else [MissingThreadIds (card (set ids - set tids))])
                @ (if list_all py_truthy cells then []
                   else [EmptyVaccineTypes (length (filter (\<lambda>v. \<not> py_truthy v) cells))]))"
proof -
  have m: "(filter (\<lambda>k. k \<notin> set tids) (remdups ids) \<noteq> []) = (\<not> set ids \<subseteq> set tids)"
    using missing_filter_empty[of tids ids] by blast
  show ?thesis
    unfolding validate_data_def Let_def assms sum.case m missing_filter_length empty_filter_pos
    by simp
qed

lemma validate_data_collects:
  assumes "validate_data recs threads adf tdf = Inr ew"
  shows "\<exists>ids tids cells.
           collect record_thread_id (enumerate 0 recs) = Inr ids \<and>
           collect key_thread_id (map fst threads) = Inr tids \<and>
           collect (\<lambda>r. getitem r ''vaccine_types'') recs = Inr cells"
  using assms unfolding validate_data_def Let_def by (auto split: sum.splits)

lemma validate_data_Inr:
  assumes "validate_data recs threads adf tdf = Inr (errors, warnings)"
  shows "errors = (if length recs \<noteq> length adf
                   then [AnnotatedCountMismatch (length recs) (length adf)] else [])
                @ (if total_posts threads \<noteq> length tdf
                   then [ThreadsPostCountMismatch (total_posts threads) (length tdf)] else [])"
    and "\<exists>ids tids cells.
           collect record_thread_id (enumerate 0 recs) = Inr ids \<and>
           collect key_thread_id (map fst threads) = Inr tids \<and>
           collect (\<lambda>r. getitem r ''vaccine_types'') recs = Inr cells \<and>
           warnings = (if set ids \<subseteq> set tids then []
                       else [MissingThreadIds (card (set ids - set tids))])
                    @ (if list_all py_truthy cells then []
                       else [EmptyVaccineTypes (length (filter (\<lambda>v. \<not> py_truthy v) cells))])"
    and "\<forall>m\<in>set warnings. \<exists>n. 0 < n \<and> (m = MissingThreadIds n \<or> m = EmptyVaccineTypes n)"
proof -
  from validate_data_collects[OF assms] obtain ids tids cells where
    c: "collect record_thread_id (enumerate 0 recs) = Inr ids"
       "collect key_thread_id (map fst threads) = Inr tids"
       "collect (\<lambda>r. getitem r ''vaccine_types'') recs = Inr cells"
    by blast
  note eq = validate_data_eq[OF c, of adf tdf]
  from assms eq show "errors = (if length recs \<noteq> length adf
                   then [AnnotatedCountMismatch (length recs) (length adf)] else [])
                @ (if total_posts threads \<noteq> length tdf
                   then [ThreadsPostCountMismatch (total_posts threads) (length tdf)] else [])"
    by simp
  from assms eq have w: "warnings = (if set ids \<subseteq> set tids then []
                       else [MissingThreadIds (card (set ids - set tids))])
                    @ (if list_all py_truthy cells then []
                       else [EmptyVaccineTypes (length (filter (\<lambda>v. \<not> py_truthy v) cells))])"
    by simp
  with c show "\<exists>ids tids cells.
           collect record_thread_id (enumerate 0 recs) = Inr ids \<and>
           collect key_thread_id (map fst threads) = Inr tids \<and>
           collect (\<lambda>r. getitem r ''vaccine_types'') recs = Inr cells \<and>
           warnings = (if set ids \<subseteq> set tids then []
                       else [MissingThreadIds (card (set ids - set tids))])
                    @ (if list_all py_truthy cells then []
                       else [EmptyVaccineTypes (length (filter (\<lambda>v. \<not> py_truthy v) cells))])"
    by blast
  have p1: "\<not> set ids \<subseteq> set tids \<Longrightarrow> 0 < card (set ids - set tids)"
    by (simp add: card_gt_0_iff)
  have p2: "\<not> list_all py_truthy cells \<Longrightarrow> 0 < length (filter (\<lambda>v. \<not> py_truthy v) cells)"
    using empty_filter_pos[of cells] by blast
  show "\<forall>m\<in>set warnings. \<exists>n. 0 < n \<and> (m = MissingThreadIds n \<or> m = EmptyVaccineTypes n)"
    unfolding w using p1 p2 by (auto split: if_splits)
qed

lemma main_halts_on_errors:
  assumes "8 \<le> length password" "convert_annotated jl adf = Inr (recs, perrs)"
    and "validate_data recs (convert_threads tdf) adf tdf = Inr (errors, warnings)" "errors \<noteq> []"
  shows "main jl dumps derive aes password (Some adf) (Some tdf) fs rng = (Inr False, fs, rng)"
  using assms by (simp add: main_def Let_def)

lemma main_writes_only_validated:
  assumes "fst (snd (main jl dumps derive aes password annotated_csv threads_csv fs rng)) \<noteq> fs"
  shows "\<exists>adf tdf recs perrs warnings. annotated_csv = Some adf \<and> threads_csv = Some tdf \<and>
     convert_annotated jl adf = Inr (recs, perrs) \<and>
     validate_data recs (convert_threads tdf) adf tdf = Inr ([], warnings)"
  using assms
  by (auto simp: main_def Let_def split: if_splits option.splits sum.splits prod.splits)

text \<open>
  The NaN thread ids of two records are two elements of the set, and \<open>int\<close> strips the
  six blanks only.
\<close>

lemma nan_thread_ids_counted_apart:
  "validate_data [[(''thread_id'', PNaN), (''vaccine_types'', PList [PStr ''pfizer''])],
                  [(''thread_id'', PNaN), (''vaccine_types'', PList [PStr ''pfizer''])]]
     [] [[], []] [] = Inr ([], [MissingThreadIds 2])"
  by code_simp

lemma int_of_str_blanks:
  "int_of_str [CHR 0x20, CHR ''4'', CHR ''2'', CHR 0x0A] = Inr 42 \<and>
   int_of_str [CHR 0x1C, CHR ''4''] = Inl ValueError"
  by code_simp

text \<open>
  C7: \<open>validate_data\<close> returns whenever every record has a hashable \<open>thread_id\<close> and a
  \<open>vaccine_types\<close> and every key of the thread map reads as an integer. When it returns,
  its error list holds exactly the messages of the two count mismatches that occur
  (records against annotated rows, total posts against thread rows), and its warning
  list holds exactly: the number of thread ids of the records that are no key of the
  thread map, when there is one, and then the number of records whose \<open>vaccine_types\<close>
  is empty, when there is one; neither of the two ever enters the error list. When the
  error list that \<open>validate_data\<close> returns to \<open>main\<close> is not empty, \<open>main\<close> returns
  \<open>False\<close> and the files and the randomness are as before; and whenever \<open>main\<close> leaves
  the files changed, the validation had returned an empty error list.
\<close>

theorem C7_validation_gate:
  "(\<forall>ids tids cells.
      collect record_thread_id (enumerate 0 recs) = Inr ids \<longrightarrow>
      collect key_thread_id (map fst threads) = Inr tids \<longrightarrow>
      collect (\<lambda>r. getitem r ''vaccine_types'') recs = Inr cells \<longrightarrow>
      validate_data recs threads adf tdf =
        Inr ((if length recs \<noteq> length adf
              then [AnnotatedCountMismatch (length recs) (length adf)] else [])
             @ (if total_posts threads \<noteq> length tdf
                then [ThreadsPostCountMismatch (total_posts threads) (length tdf)] else []),
             (if set ids \<subseteq> set tids then []
              else [MissingThreadIds (card (set ids - set tids))])
             @ (if list_all py_truthy cells then []
                else [EmptyVaccineTypes (length (filter (\<lambda>v. \<not> py_truthy v) cells))]))) \<and>
   (\<forall>errors warnings. validate_data recs threads adf tdf = Inr (errors, warnings) \<longrightarrow>
      errors = (if length recs \<noteq> length adf
                then [AnnotatedCountMismatch (length recs) (length adf)] else [])
             @ (if total_posts threads \<noteq> length tdf
                then [ThreadsPostCountMismatch (total_posts threads) (length tdf)] else []) \<and>
      (\<exists>ids tids cells.
         collect record_thread_id (enumerate 0 recs) = Inr ids \<and>
         collect key_thread_id (map fst threads) = Inr tids \<and>
         collect (\<lambda>r. getitem r ''vaccine_types'') recs = Inr cells \<and>
         warnings = (if set ids \<subseteq> set tids then []
                     else [MissingThreadIds (card (set ids - set tids))])
                  @ (if list_all py_truthy cells then []
                     else [EmptyVaccineTypes (length (filter (\<lambda>v. \<not> py_truthy v) cells))])) \<and>
      (\<forall>m\<in>set warnings. \<exists>n. 0 < n \<and> (m = MissingThreadIds n \<or> m = EmptyVaccineTypes n))) \<and>
   (\<forall>annotated_df threads_df records parse_errors errors warnings.
      8 \<le> length password \<longrightarrow>
      convert_annotated jl annotated_df = Inr (records, parse_errors) \<longrightarrow>
      validate_data records (convert_threads threads_df) annotated_df threads_df
        = Inr (errors, warnings) \<longrightarrow>
      errors \<noteq> [] \<longrightarrow>
      main jl dumps derive aes password (Some annotated_df) (Some threads_df) fs rng
        = (Inr False, fs, rng)) \<and>
   (fst (snd (main jl dumps derive aes password annotated_csv threads_csv fs rng)) \<noteq> fs \<longrightarrow>
      (\<exists>annotated_df threads_df records parse_errors warnings.
         annotated_csv = Some annotated_df \<and> threads_csv = Some threads_df \<and>
         convert_annotated jl annotated_df = Inr (records, parse_errors) \<and>
         validate_data records (convert_threads threads_df) annotated_df threads_df
           = Inr ([], warnings)))"
proof (intro conjI allI impI)
  fix ids tids cells
  assume "collect record_thread_id (enumerate 0 recs) = Inr ids"
    and "collect key_thread_id (map fst threads) = Inr tids"
    and "collect (\<lambda>r. getitem r ''vaccine_types'') recs = Inr cells"
  then show "validate_data recs threads adf tdf =
        Inr ((if length recs \<noteq> length adf
              then [AnnotatedCountMismatch (length recs) (length adf)] else [])
             @ (if total_posts threads \<noteq> length tdf
                then [ThreadsPostCountMismatch (total_posts threads) (length tdf)] else []),
             (if set ids \<subseteq> set tids then []
              else [MissingThreadIds (card (set ids - set tids))])
             @ (if list_all py_truthy cells then []
                else [EmptyVaccineTypes (length (filter (\<lambda>v. \<not> py_truthy v) cells))]))"
    by (rule validate_data_eq)
next
  fix errors warnings
  assume v: "validate_data recs threads adf tdf = Inr (errors, warnings)"
  show "errors = (if length recs \<noteq> length adf
                then [AnnotatedCountMismatch (length recs) (length adf)] else [])
             @ (if total_posts threads \<noteq> length tdf
                then [ThreadsPostCountMismatch (total_posts threads) (length tdf)] else [])"
    by (rule validate_data_Inr(1)[OF v])
  show "\<exists>ids tids cells.
         collect record_thread_id (enumerate 0 recs) = Inr ids \<and>
         collect key_thread_id (map fst threads) = Inr tids \<and>
         collect (\<lambda>r. getitem r ''vaccine_types'') recs = Inr cells \<and>
         warnings = (if set ids \<subseteq> set tids then []
                     else [MissingThreadIds (card (set ids - set tids))])
                  @ (if list_all py_truthy cells then []
                     else [EmptyVaccineTypes (length (filter (\<lambda>v. \<not> py_truthy v) cells))])"
    by (rule validate_data_Inr(2)[OF v])
  show "\<forall>m\<in>set warnings. \<exists>n. 0 < n \<and> (m = MissingThreadIds n \<or> m = EmptyVaccineTypes n)"
    by (rule validate_data_Inr(3)[OF v])
next
  fix annotated_df threads_df records parse_errors errors warnings
  assume "8 \<le> length password"
    and "convert_annotated jl annotated_df = Inr (records, parse_errors)"
    and "validate_data records (convert_threads threads_df) annotated_df threads_df
           = Inr (errors, warnings)"
    and "errors \<noteq> []"
  then show "main jl dumps derive aes password (Some annotated_df) (Some threads_df) fs rng
        = (Inr False, fs, rng)"
    by (rule main_halts_on_errors)
next
  assume "fst (snd (main jl dumps derive aes password annotated_csv threads_csv fs rng)) \<noteq> fs"
  then show "\<exists>annotated_df threads_df records parse_errors warnings.
         annotated_csv = Some annotated_df \<and> threads_csv = Some threads_df \<and>
         convert_annotated jl annotated_df = Inr (records, parse_errors) \<and>
         validate_data records (convert_threads threads_df) annotated_df threads_df
           = Inr ([], warnings)"
    by (rule main_writes_only_validated)
qed

lemma sample_records:
  "convert_annotated sample_loads annotated_sample
     = Inr (map (row_record sample_loads) annotated_sample,
            concat (map (row_errors sample_loads) (enumerate 0 annotated_sample)))"
  by (rule convert_annotated_eq)

lemma sample_validation:
  "validate_data (map (row_record sample_loads) annotated_sample) (convert_threads orphan_posts)
     annotated_sample orphan_posts
   = Inr ([ThreadsPostCountMismatch 0 1], [MissingThreadIds 3, EmptyVaccineTypes 2])"
  by code_simp

lemma truncated_validation:
  "validate_data (butlast (map (row_record sample_loads) annotated_sample))
     (convert_threads two_threads) annotated_sample two_threads
   = Inr ([AnnotatedCountMismatch 3 4], [MissingThreadIds 1, EmptyVaccineTypes 1])"
  by code_simp

theorem C7_validation_gate_witness:
  "main sample_loads sample_dumps toy_derive toy_aes sample_password (Some annotated_sample)
     (Some orphan_posts) [] sample_rng = (Inr False, [], sample_rng) \<and>
   validate_data (butlast (map (row_record sample_loads) annotated_sample))
     (convert_threads two_threads) annotated_sample two_threads
     = Inr ([AnnotatedCountMismatch 3 4], [MissingThreadIds 1, EmptyVaccineTypes 1])"
proof -
  have pw: "8 \<le> length sample_password" by (simp add: sample_password_def)
  have ne: "[ThreadsPostCountMismatch 0 1] \<noteq> []" by simp
  have a: "main sample_loads sample_dumps toy_derive toy_aes sample_password
      (Some annotated_sample) (Some orphan_posts) [] sample_rng = (Inr False, [], sample_rng)"
    using C7_validation_gate[where password = sample_password and jl = sample_loads
        and dumps = sample_dumps and derive = toy_derive and aes = toy_aes and fs = "[]"
        and rng = sample_rng]
      pw sample_records sample_validation ne
    by blast
  show ?thesis using a truncated_validation by simp
qed

end
